theory Spec2Isabelle
  imports Complex_Main
begin

section \<open>Data model\<close>

text \<open>
  The confusion-matrix optimiser of \<^verbatim>\<open>src/clana/visualize_cm.py\<close>. A two-dimensional
  integer array is a list of rows; a permutation vector is a list of Python integers.
  Floating-point numbers (weights, temperature, the acceptance draw) are modelled as
  reals, so \<^verbatim>\<open>0.01\<close> is the exact fraction \<open>1 / 100\<close>. Rounding is represented
  where it decides a branch: in the threshold of the acceptance test, which is computed
  in binary64 arithmetic. Infinities and NaN are not represented.
\<close>

type_synonym matrix = "int list list"
type_synonym weights = "real list list"
type_synonym perm = "int list"

text \<open>
  One constructor per place where the code can raise:
  \<^item> \<open>InsertPosError insert_pos from_start from_end\<close>: the \<^verbatim>\<open>ValueError\<close> of
    \<^verbatim>\<open>move\<close> and \<^verbatim>\<open>move_1d\<close>;
  \<^item> \<open>TempError\<close>, \<open>CoolingFactorError\<close>: the two \<^verbatim>\<open>ValueError\<close>s at the entry of
    \<^verbatim>\<open>simulated_annealing\<close>;
  \<^item> \<open>EmptyRangeError\<close>: the \<^verbatim>\<open>ValueError\<close> of \<^verbatim>\<open>random.randint(a, b)\<close> for \<open>b < a\<close>;
  \<^item> \<open>IndexError\<close>: an array index out of bounds;
  \<^item> \<open>ShapeError\<close>: \<^verbatim>\<open>np.tensordot\<close> on arrays of different shapes;
  \<^item> \<open>UnboundLocalError\<close>: a local variable read before any assignment;
  \<^item> \<open>ZeroDivisionError\<close>: a float division by zero.
\<close>

datatype error =
    InsertPosError int int int
  | TempError
  | CoolingFactorError
  | EmptyRangeError
  | IndexError
  | ShapeError
  | UnboundLocalError
  | ZeroDivisionError

text \<open>
  A procedure that works in place on an array either returns or raises; in both cases
  the second component is the content of the array argument after the call.
\<close>

datatype 'a outcome = Raised error 'a | Returned 'a

section \<open>Array indexing\<close>

text \<open>An index \<open>k\<close> into an axis of length \<open>len\<close>: negative indices count from the end.\<close>

definition norm_index :: "nat \<Rightarrow> int \<Rightarrow> nat option" where
  "norm_index len k =
     (if 0 \<le> k \<and> k < int len then Some (nat k)
      else if - int len \<le> k \<and> k < 0 then Some (nat (k + int len))
      else None)"

definition norm_indices :: "nat \<Rightarrow> int list \<Rightarrow> nat list option" where
  "norm_indices len ks =
     (if list_all (\<lambda>k. norm_index len k \<noteq> None) ks
      then Some (map (\<lambda>k. the (norm_index len k)) ks) else None)"

text \<open>\<^verbatim>\<open>a[ps]\<close> (a fresh array) and \<^verbatim>\<open>a[ps] = vs\<close> (assignments in order) along the first axis.\<close>

definition fancy_get :: "'a list \<Rightarrow> nat list \<Rightarrow> 'a list" where
  "fancy_get xs ps = map ((!) xs) ps"

definition fancy_set :: "'a list \<Rightarrow> nat list \<Rightarrow> 'a list \<Rightarrow> 'a list" where
  "fancy_set xs ps vs = fold (\<lambda>pv acc. acc[fst pv := snd pv]) (zip ps vs) xs"

definition ncols :: "'a list list \<Rightarrow> nat" where
  "ncols cm = (case cm of [] \<Rightarrow> 0 | row # _ \<Rightarrow> length row)"

definition transpose_m :: "'a list list \<Rightarrow> 'a list list" where
  "transpose_m cm = map (\<lambda>j. map (\<lambda>row. row ! j) cm) [0..<ncols cm]"

definition is_square :: "nat \<Rightarrow> 'a list list \<Rightarrow> bool" where
  "is_square n cm = (length cm = n \<and> list_all (\<lambda>row. length row = n) cm)"

section \<open>Score\<close>

text \<open>\<^verbatim>\<open>int(x)\<close> on a float truncates towards zero.\<close>

definition py_int :: "real \<Rightarrow> int" where
  "py_int x = (if 0 \<le> x then \<lfloor>x\<rfloor> else \<lceil>x\<rceil>)"

definition same_shape :: "'a list list \<Rightarrow> 'b list list \<Rightarrow> bool" where
  "same_shape a b = (map length a = map length b)"

definition tensordot :: "matrix \<Rightarrow> weights \<Rightarrow> real" where
  "tensordot cm w =
     sum_list (map (\<lambda>rw. sum_list (map (\<lambda>cw. real_of_int (fst cw) * snd cw) (zip (fst rw) (snd rw))))
                   (zip cm w))"

definition calculate_score :: "matrix \<Rightarrow> weights \<Rightarrow> error + int" where
  "calculate_score cm w =
     (if same_shape cm w then Inr (py_int (tensordot cm w)) else Inl ShapeError)"

definition calculate_weight_matrix :: "int \<Rightarrow> weights" where
  "calculate_weight_matrix n =
     map (\<lambda>i. map (\<lambda>j. if i = j then real_of_int \<bar>j - i\<bar>
                        else real_of_int \<bar>j - i\<bar> + real_of_int (i + j) * (1 / 100))
                 [0..n - 1])
         [0..n - 1]"

section \<open>Permutation transforms\<close>

definition swap :: "matrix \<Rightarrow> int \<Rightarrow> int \<Rightarrow> matrix outcome" where
  "swap cm i j =
     (case norm_index (ncols cm) i of None \<Rightarrow> Raised IndexError cm | Some ci \<Rightarrow>
     (case norm_index (ncols cm) j of None \<Rightarrow> Raised IndexError cm | Some cj \<Rightarrow>
     (let cm1 = map (\<lambda>row. (row[ci := row ! cj])[cj := row ! ci]) cm in
     (case norm_index (length cm1) i of None \<Rightarrow> Raised IndexError cm1 | Some ri \<Rightarrow>
     (case norm_index (length cm1) j of None \<Rightarrow> Raised IndexError cm1 | Some rj \<Rightarrow>
      Returned ((cm1[ri := cm1 ! rj])[rj := cm1 ! ri]))))))"

definition swap_1d :: "perm \<Rightarrow> int \<Rightarrow> int \<Rightarrow> perm outcome" where
  "swap_1d perm i j =
     (case norm_index (length perm) j of None \<Rightarrow> Raised IndexError perm | Some qj \<Rightarrow>
     (case norm_index (length perm) i of None \<Rightarrow> Raised IndexError perm | Some qi \<Rightarrow>
      Returned ((perm[qi := perm ! qj])[qj := perm ! qi])))"

text \<open>The index lists \<^verbatim>\<open>p_new\<close> of \<^verbatim>\<open>move\<close> and \<^verbatim>\<open>move_1d\<close>; \<^verbatim>\<open>p_old\<close> is \<^verbatim>\<open>sorted(p_new)\<close>.\<close>

definition p_new :: "int \<Rightarrow> int \<Rightarrow> int \<Rightarrow> int list" where
  "p_new from_start from_end insert_pos =
     (if insert_pos > from_end
      then [from_end + 1..insert_pos] @ [from_start..from_end]
      else [from_start..from_end] @ [insert_pos..from_start - 1])"

text \<open>
  \<^verbatim>\<open>a[p_old] = a[p_new]\<close> along the first axis of an array: the right-hand side is read
  into a fresh array, then assigned. \<open>None\<close> is an \<^verbatim>\<open>IndexError\<close>, raised before anything
  is assigned.
\<close>

definition reindex :: "'a list \<Rightarrow> int list \<Rightarrow> int list \<Rightarrow> 'a list option" where
  "reindex xs p_old pn =
     (case norm_indices (length xs) pn of None \<Rightarrow> None | Some idx_new \<Rightarrow>
     (case norm_indices (length xs) p_old of None \<Rightarrow> None | Some idx_old \<Rightarrow>
      Some (fancy_set xs idx_old (fancy_get xs idx_new))))"

text \<open>The same along the second axis, \<^verbatim>\<open>cm[:, p_old] = cm[:, p_new]\<close>.\<close>

definition reindex_cols :: "'a list list \<Rightarrow> int list \<Rightarrow> int list \<Rightarrow> 'a list list option" where
  "reindex_cols cm p_old pn =
     (case norm_indices (ncols cm) pn of None \<Rightarrow> None | Some idx_new \<Rightarrow>
     (case norm_indices (ncols cm) p_old of None \<Rightarrow> None | Some idx_old \<Rightarrow>
      Some (map (\<lambda>row. fancy_set row idx_old (fancy_get row idx_new)) cm)))"

definition move_1d :: "perm \<Rightarrow> int \<Rightarrow> int \<Rightarrow> int \<Rightarrow> perm outcome" where
  "move_1d perm from_start from_end insert_pos =
     (if \<not> (insert_pos < from_start \<or> insert_pos > from_end)
      then Raised (InsertPosError insert_pos from_start from_end) perm
      else
        (let pn = p_new from_start from_end insert_pos; p_old = sort pn in
        (case reindex perm p_old pn of
           None \<Rightarrow> Raised IndexError perm
         | Some perm1 \<Rightarrow> Returned perm1)))"

definition move :: "matrix \<Rightarrow> int \<Rightarrow> int \<Rightarrow> int \<Rightarrow> matrix outcome" where
  "move cm from_start from_end insert_pos =
     (if \<not> (insert_pos < from_start \<or> insert_pos > from_end)
      then Raised (InsertPosError insert_pos from_start from_end) cm
      else
        (let pn = p_new from_start from_end insert_pos; p_old = sort pn in
        (case reindex_cols cm p_old pn of
           None \<Rightarrow> Raised IndexError cm
         | Some cm1 \<Rightarrow>
        (case reindex cm1 p_old pn of
           None \<Rightarrow> Raised IndexError cm1
         | Some cm2 \<Rightarrow> Returned cm2))))"

definition apply_permutation :: "matrix \<Rightarrow> perm \<Rightarrow> error + matrix" where
  "apply_permutation cm perm =
     (case norm_indices (length cm) perm of None \<Rightarrow> Inl IndexError | Some ps \<Rightarrow>
     (let t = transpose_m (fancy_get cm ps) in
     (case norm_indices (length t) perm of None \<Rightarrow> Inl IndexError | Some qs \<Rightarrow>
      Inr (transpose_m (fancy_get t qs)))))"

section \<open>The random source\<close>

text \<open>
  The module-level generator of Python's \<^verbatim>\<open>random\<close> is a parameter of the model: an
  infinite tape of raw natural numbers together with the position of the next unread
  cell. Each call reads one cell. \<^verbatim>\<open>random.random()\<close> returns a multiple of \<open>2\<^sup>-\<^sup>5\<^sup>3\<close> in
  \<open>[0, 1)\<close>; \<^verbatim>\<open>random.randint(a, b)\<close> returns an integer of \<open>[a, b]\<close> and raises for an
  empty range.
\<close>

type_synonym rng = "(nat \<Rightarrow> nat) \<times> nat"

definition random_random :: "rng \<Rightarrow> real \<times> rng" where
  "random_random r = (real (fst r (snd r) mod 2 ^ 53) / 2 ^ 53, (fst r, Suc (snd r)))"

definition randint :: "int \<Rightarrow> int \<Rightarrow> rng \<Rightarrow> error + int \<times> rng" where
  "randint a b r =
     (if b < a then Inl EmptyRangeError
      else Inr (a + int (fst r (snd r) mod nat (b - a + 1)), (fst r, Suc (snd r))))"

section \<open>Neighbour generation\<close>

text \<open>The loop \<^verbatim>\<open>while j == i: j = random.randint(0, n - 1)\<close>.\<close>

partial_function (option) resample_j ::
  "int \<Rightarrow> int \<Rightarrow> int \<Rightarrow> rng \<Rightarrow> (error + int \<times> rng) option" where
  "resample_j n i j r =
     (if j = i
      then (case randint 0 (n - 1) r of
              Inl e \<Rightarrow> Some (Inl e)
            | Inr jr \<Rightarrow> resample_j n i (fst jr) (snd jr))
      else Some (Inr (j, r)))"

text \<open>
  One execution of the body of \<^verbatim>\<open>while block_len >= n - 1\<close>: it draws \<^verbatim>\<open>from_start\<close> and
  \<^verbatim>\<open>from_end\<close> and sets \<^verbatim>\<open>block_len = from_start - from_end\<close>.
\<close>

definition block_body :: "int \<Rightarrow> rng \<Rightarrow> error + (int \<times> int \<times> int) \<times> rng" where
  "block_body n r =
     (case randint 0 (n - 3) r of Inl e \<Rightarrow> Inl e | Inr fr \<Rightarrow>
     (case randint (fst fr + 1) (n - 2) (snd fr) of Inl e \<Rightarrow> Inl e | Inr er \<Rightarrow>
      Inr ((fst fr - fst er, fst fr, fst er), snd er)))"

text \<open>
  The loop itself. Its state is \<^verbatim>\<open>block_len\<close> and the pair (\<^verbatim>\<open>from_start\<close>, \<^verbatim>\<open>from_end\<close>),
  which is unbound (\<open>None\<close>) until the body has run.
\<close>

partial_function (option) resample_block ::
  "int \<Rightarrow> int \<Rightarrow> (int \<times> int) option \<Rightarrow> rng \<Rightarrow> (error + (int \<times> int) option \<times> rng) option" where
  "resample_block n block_len bounds r =
     (if block_len \<ge> n - 1
      then (case block_body n r of
              Inl e \<Rightarrow> Some (Inl e)
            | Inr br \<Rightarrow> resample_block n (fst (fst br)) (Some (snd (fst br))) (snd br))
      else Some (Inr (bounds, r)))"

text \<open>
  The loop \<^verbatim>\<open>while not (insert_pos < from_start or insert_pos > from_end):
  insert_pos = random.randint(0, n - 1)\<close>.
\<close>

partial_function (option) resample_insert_pos ::
  "int \<Rightarrow> int \<Rightarrow> int \<Rightarrow> int \<Rightarrow> rng \<Rightarrow> (error + int \<times> rng) option" where
  "resample_insert_pos n from_start from_end insert_pos r =
     (if \<not> (insert_pos < from_start \<or> insert_pos > from_end)
      then (case randint 0 (n - 1) r of
              Inl e \<Rightarrow> Some (Inl e)
            | Inr pr \<Rightarrow> resample_insert_pos n from_start from_end (fst pr) (snd pr))
      else Some (Inr (insert_pos, r)))"

text \<open>
  The parameters a neighbour is built from: \<^verbatim>\<open>swap_1d\<close>/\<^verbatim>\<open>swap\<close> are called with
  \<open>(i, j)\<close>, \<^verbatim>\<open>move_1d\<close>/\<^verbatim>\<open>move\<close> with \<open>(from_start, from_end, insert_pos)\<close>.
\<close>

datatype move_params = SwapParams int int | BlockParams int int int

text \<open>
  The first half of \<^verbatim>\<open>generate_permutation\<close>: every draw up to the calls of the
  transforms. The result is \<^verbatim>\<open>make_swap\<close>, the parameters and the generator afterwards.
\<close>

definition draw_move :: "int \<Rightarrow> rng \<Rightarrow> (error + bool \<times> move_params \<times> rng) option" where
  "draw_move n r =
     (let ur = random_random r;
          make_swap = (fst ur < 1 / 2);
          make_swap = (if n < 3 then True else make_swap)
      in if make_swap
         then (case randint 0 (n - 1) (snd ur) of Inl e \<Rightarrow> Some (Inl e) | Inr ir \<Rightarrow>
              (case resample_j n (fst ir) (fst ir) (snd ir) of
                 None \<Rightarrow> None
               | Some (Inl e) \<Rightarrow> Some (Inl e)
               | Some (Inr jr) \<Rightarrow> Some (Inr (make_swap, SwapParams (fst ir) (fst jr), snd jr))))
         else (case resample_block n n None (snd ur) of
                 None \<Rightarrow> None
               | Some (Inl e) \<Rightarrow> Some (Inl e)
               | Some (Inr (None, r1)) \<Rightarrow> Some (Inl UnboundLocalError)
               | Some (Inr (Some (from_start, from_end), r1)) \<Rightarrow>
              (case resample_insert_pos n from_start from_end from_start r1 of
                 None \<Rightarrow> None
               | Some (Inl e) \<Rightarrow> Some (Inl e)
               | Some (Inr pr) \<Rightarrow>
                   Some (Inr (make_swap, BlockParams from_start from_end (fst pr), snd pr)))))"

text \<open>
  The second half: the transform is applied to a copy of \<^verbatim>\<open>current_perm\<close> and, in place,
  to the caller's \<^verbatim>\<open>tmp_cm\<close>.
\<close>

definition apply_move :: "move_params \<Rightarrow> perm \<Rightarrow> matrix \<Rightarrow> error + perm \<times> matrix" where
  "apply_move m current_perm tmp_cm =
     (case m of
        SwapParams i j \<Rightarrow>
          (case swap_1d current_perm i j of Raised e _ \<Rightarrow> Inl e | Returned perm \<Rightarrow>
          (case swap tmp_cm i j of Raised e _ \<Rightarrow> Inl e | Returned cm \<Rightarrow> Inr (perm, cm)))
      | BlockParams from_start from_end insert_pos \<Rightarrow>
          (case move_1d current_perm from_start from_end insert_pos of
             Raised e _ \<Rightarrow> Inl e | Returned perm \<Rightarrow>
          (case move tmp_cm from_start from_end insert_pos of
             Raised e _ \<Rightarrow> Inl e | Returned cm \<Rightarrow> Inr (perm, cm))))"

text \<open>
  \<^verbatim>\<open>generate_permutation(n, current_perm, tmp_cm)\<close>. It returns \<^verbatim>\<open>(perm, make_swap)\<close>; the
  model also returns the content of \<^verbatim>\<open>tmp_cm\<close> after the call, which the caller reads,
  and the generator.
\<close>

definition generate_permutation ::
  "int \<Rightarrow> perm \<Rightarrow> matrix \<Rightarrow> rng \<Rightarrow> (error + (perm \<times> bool) \<times> matrix \<times> rng) option" where
  "generate_permutation n current_perm tmp_cm r =
     (case draw_move n r of
        None \<Rightarrow> None
      | Some (Inl e) \<Rightarrow> Some (Inl e)
      | Some (Inr (make_swap, m, r')) \<Rightarrow>
          (case apply_move m current_perm tmp_cm of
             Inl e \<Rightarrow> Some (Inl e)
           | Inr (perm, cm) \<Rightarrow> Some (Inr ((perm, make_swap), cm, r'))))"

section \<open>Binary64 rounding\<close>

text \<open>
  \<open>float64 x\<close> is the IEEE 754 binary64 number nearest to the real \<open>x\<close>, ties to even: with
  \<open>2\<^sup>e \<le> |x| < 2\<^sup>e\<^sup>+\<^sup>1\<close> it is the nearest multiple of \<open>2\<^sup>e\<^sup>-\<^sup>5\<^sup>2\<close>. Overflow to infinity and gradual
  underflow are not represented. The float division \<^verbatim>\<open>a / b\<close> and \<^verbatim>\<open>np.exp\<close> return the
  rounded exact result.
\<close>

definition round_half_even :: "real \<Rightarrow> int" where
  "round_half_even x =
     (let f = \<lfloor>x\<rfloor>; r = x - of_int f
      in if r < 1 / 2 then f else if 1 / 2 < r then f + 1 else if even f then f else f + 1)"

definition float64 :: "real \<Rightarrow> real" where
  "float64 x =
     (if x = 0 then 0
      else let u = 2 powr (of_int \<lfloor>log 2 \<bar>x\<bar>\<rfloor> - 52)
           in sgn x * (of_int (round_half_even (\<bar>x\<bar> / u)) * u))"

definition float_div :: "real \<Rightarrow> real \<Rightarrow> real" where
  "float_div a b = float64 (a / b)"

definition np_exp :: "real \<Rightarrow> real" where
  "np_exp y = float64 (exp y)"

text \<open>
  \<^verbatim>\<open>hot_prob_thresh = min(1, np.exp(-(tmp_score - current_score) / temp))\<close>: the integer
  is converted to a float, divided by the temperature, and the exponential is taken.
\<close>

definition hot_prob_thresh :: "int \<Rightarrow> int \<Rightarrow> real \<Rightarrow> real" where
  "hot_prob_thresh tmp_score current_score t =
     min 1 (np_exp (float_div (float64 (of_int (- (tmp_score - current_score)))) t))"

section \<open>The annealing engine\<close>

text \<open>
  The variables of \<^verbatim>\<open>simulated_annealing\<close> that live across iterations, with the generator.
\<close>

record sa_state =
  current_cm :: matrix
  current_perm :: perm
  current_score :: int
  best_cm :: matrix
  best_perm :: perm
  best_score :: int
  temp :: real
  gen :: rng

type_synonym score_fun = "matrix \<Rightarrow> weights \<Rightarrow> error + int"

text \<open>
  The acceptance draw of one iteration: \<^verbatim>\<open>chance\<close>, the temperature and the generator
  afterwards.
\<close>

definition draw_chance :: "bool \<Rightarrow> real \<Rightarrow> rng \<Rightarrow> real \<times> real \<times> rng" where
  "draw_chance deterministic t r =
     (if deterministic then (1, t, r)
      else (let ur = random_random r in (fst ur, t * (99 / 100), snd ur)))"

text \<open>
  The assignments of an accepted candidate: \<^verbatim>\<open>best\<close> is replaced when
  \<^verbatim>\<open>best_score > tmp_score\<close>, \<^verbatim>\<open>current\<close> always.
\<close>

definition accept :: "perm \<Rightarrow> matrix \<Rightarrow> int \<Rightarrow> sa_state \<Rightarrow> sa_state" where
  "accept perm tmp_cm tmp_score s =
     (let s1 = (if best_score s > tmp_score
                then s\<lparr>best_perm := perm, best_cm := tmp_cm, best_score := tmp_score\<rparr>
                else s)
      in s1\<lparr>current_score := tmp_score, current_cm := tmp_cm, current_perm := perm\<rparr>)"

text \<open>
  One iteration of \<^verbatim>\<open>for step in range(steps)\<close>. Dividing by a zero temperature raises
  \<^verbatim>\<open>ZeroDivisionError\<close>.
\<close>

definition sa_step ::
  "score_fun \<Rightarrow> bool \<Rightarrow> int \<Rightarrow> weights \<Rightarrow> sa_state \<Rightarrow> (error + sa_state) option" where
  "sa_step score deterministic n w s =
     (case generate_permutation n (current_perm s) (current_cm s) (gen s) of
        None \<Rightarrow> None
      | Some (Inl e) \<Rightarrow> Some (Inl e)
      | Some (Inr ((perm, make_swap), tmp_cm, r1)) \<Rightarrow>
          (case score tmp_cm w of
             Inl e \<Rightarrow> Some (Inl e)
           | Inr tmp_score \<Rightarrow>
               (case draw_chance deterministic (temp s) r1 of (chance, t, r2) \<Rightarrow>
                  if t = 0 then Some (Inl ZeroDivisionError)
                  else
                    let s1 = s\<lparr>temp := t, gen := r2\<rparr>
                    in Some (Inr (if chance \<le> hot_prob_thresh tmp_score (current_score s) t
                                  then accept perm tmp_cm tmp_score s1 else s1)))))"

fun sa_loop ::
  "score_fun \<Rightarrow> bool \<Rightarrow> int \<Rightarrow> weights \<Rightarrow> nat \<Rightarrow> sa_state \<Rightarrow> (error + sa_state) option" where
  "sa_loop score deterministic n w 0 s = Some (Inr s)"
| "sa_loop score deterministic n w (Suc k) s =
     (case sa_step score deterministic n w s of
        None \<Rightarrow> None
      | Some (Inl e) \<Rightarrow> Some (Inl e)
      | Some (Inr s') \<Rightarrow> sa_loop score deterministic n w k s')"

text \<open>
  The code before the loop, after the two checks: the initial permutation (the identity
  when none is given), the weights, the permuted matrix and its score.
\<close>

definition sa_init ::
  "matrix \<Rightarrow> perm option \<Rightarrow> score_fun \<Rightarrow> real \<Rightarrow> rng \<Rightarrow> error + sa_state" where
  "sa_init cm_arg perm_arg score temp_arg r =
     (let n = int (length cm_arg);
          perm0 = (case perm_arg of None \<Rightarrow> [0..n - 1] | Some p \<Rightarrow> p);
          w = calculate_weight_matrix n
      in case apply_permutation cm_arg perm0 of Inl e \<Rightarrow> Inl e | Inr cm0 \<Rightarrow>
        (case score cm0 w of Inl e \<Rightarrow> Inl e | Inr score0 \<Rightarrow>
           Inr \<lparr>current_cm = cm0, current_perm = perm0, current_score = score0,
                best_cm = cm0, best_perm = perm0, best_score = score0,
                temp = temp_arg, gen = r\<rparr>))"

text \<open>
  The run up to the \<^verbatim>\<open>return\<close>: the checks, the initialisation and \<^verbatim>\<open>range(steps)\<close>
  iterations (none for \<open>steps \<le> 0\<close>). The result is the state at the \<^verbatim>\<open>return\<close>.
\<close>

definition sa_run ::
  "matrix \<Rightarrow> perm option \<Rightarrow> score_fun \<Rightarrow> int \<Rightarrow> real \<Rightarrow> real \<Rightarrow> bool \<Rightarrow> rng
     \<Rightarrow> (error + sa_state) option" where
  "sa_run cm_arg perm_arg score steps temp_arg cooling_factor deterministic r =
     (if temp_arg \<le> 0 then Some (Inl TempError)
      else if cooling_factor \<le> 0 \<or> cooling_factor \<ge> 1 then Some (Inl CoolingFactorError)
      else (case sa_init cm_arg perm_arg score temp_arg r of
              Inl e \<Rightarrow> Some (Inl e)
            | Inr s0 \<Rightarrow>
                sa_loop score deterministic (int (length cm_arg))
                  (calculate_weight_matrix (int (length cm_arg))) (nat steps) s0))"

text \<open>\<^verbatim>\<open>simulated_annealing\<close> returns \<^verbatim>\<open>{"cm": best_cm, "perm": best_perm}\<close>.\<close>

definition simulated_annealing ::
  "matrix \<Rightarrow> perm option \<Rightarrow> score_fun \<Rightarrow> int \<Rightarrow> real \<Rightarrow> real \<Rightarrow> bool \<Rightarrow> rng
     \<Rightarrow> (error + matrix \<times> perm) option" where
  "simulated_annealing cm_arg perm_arg score steps temp_arg cooling_factor deterministic r =
     (case sa_run cm_arg perm_arg score steps temp_arg cooling_factor deterministic r of
        None \<Rightarrow> None
      | Some (Inl e) \<Rightarrow> Some (Inl e)
      | Some (Inr s) \<Rightarrow> Some (Inr (best_cm s, best_perm s)))"

section \<open>The example of the docstrings\<close>

text \<open>
  The matrix \<open>[[0,1,2],[3,4,5],[6,7,8]]\<close> of the docstrings, the matrix after swapping
  classes \<open>1\<close> and \<open>2\<close>, the tape whose \<open>k\<close>-th cell holds \<open>k\<close>, and the states of a run on
  them that starts from the identity permutation.
\<close>

abbreviation example_cm :: matrix where
  "example_cm \<equiv> [[0, 1, 2], [3, 4, 5], [6, 7, 8]]"

abbreviation example_cm_swapped :: matrix where
  "example_cm_swapped \<equiv> [[0, 2, 1], [6, 8, 7], [3, 5, 4]]"

abbreviation example_state :: "matrix \<Rightarrow> perm \<Rightarrow> int \<Rightarrow> real \<Rightarrow> nat \<Rightarrow> sa_state" where
  "example_state cm p sc t pos \<equiv>
     \<lparr>current_cm = cm, current_perm = p, current_score = sc,
      best_cm = cm, best_perm = p, best_score = sc, temp = t, gen = (\<lambda>k. k, pos)\<rparr>"

section \<open>The score of a square matrix\<close>


lemma upto_int_length: "length [0..int n - 1] = n"
  by (simp add: length_upto)


lemma weight_matrix_length: "length (calculate_weight_matrix (int n)) = n"
  by (simp add: calculate_weight_matrix_def upto_int_length)

lemma weight_matrix_row_length:
  "i < n \<Longrightarrow> length (calculate_weight_matrix (int n) ! i) = n"
  by (simp add: calculate_weight_matrix_def upto_int_length)


lemma weight_matrix_shape:
  "map length (calculate_weight_matrix (int n)) = replicate n n"
  by (rule nth_equalityI) (simp_all add: weight_matrix_length weight_matrix_row_length)



lemmas score_eval = calculate_score_def calculate_weight_matrix_def same_shape_def tensordot_def
  py_int_def upto.simps



section \<open>The precondition of the block move\<close>

lemma move_inside:
  "from_start \<le> insert_pos \<Longrightarrow> insert_pos \<le> from_end \<Longrightarrow>
   move cm from_start from_end insert_pos =
     Raised (InsertPosError insert_pos from_start from_end) cm"
  by (simp add: move_def)

lemma move_1d_inside:
  "from_start \<le> insert_pos \<Longrightarrow> insert_pos \<le> from_end \<Longrightarrow>
   move_1d perm from_start from_end insert_pos =
     Raised (InsertPosError insert_pos from_start from_end) perm"
  by (simp add: move_1d_def)

lemma move_outside:
  "insert_pos < from_start \<or> from_end < insert_pos \<Longrightarrow>
   move cm from_start from_end insert_pos \<noteq> Raised (InsertPosError x y z) a"
  by (auto simp: move_def Let_def split: option.splits)

lemma move_1d_outside:
  "insert_pos < from_start \<or> from_end < insert_pos \<Longrightarrow>
   move_1d perm from_start from_end insert_pos \<noteq> Raised (InsertPosError x y z) a"
  by (auto simp: move_1d_def Let_def split: option.splits)

text \<open>
  Claim C7. For \<open>from_start \<le> from_end\<close>, \<^verbatim>\<open>move\<close> and \<^verbatim>\<open>move_1d\<close> raise the
  insert-position error exactly when \<open>insert_pos\<close> lies in \<open>[from_start, from_end]\<close>, and
  then the array they were given is unchanged.
\<close>

theorem move_raises_iff_inside:
  assumes "from_start \<le> from_end"
  shows "((\<exists>x y z a. move cm from_start from_end insert_pos = Raised (InsertPosError x y z) a)
            = (from_start \<le> insert_pos \<and> insert_pos \<le> from_end)) \<and>
         ((\<exists>x y z a. move_1d perm from_start from_end insert_pos = Raised (InsertPosError x y z) a)
            = (from_start \<le> insert_pos \<and> insert_pos \<le> from_end)) \<and>
         (from_start \<le> insert_pos \<and> insert_pos \<le> from_end \<longrightarrow>
            move cm from_start from_end insert_pos =
              Raised (InsertPosError insert_pos from_start from_end) cm \<and>
            move_1d perm from_start from_end insert_pos =
              Raised (InsertPosError insert_pos from_start from_end) perm)"
proof (cases "from_start \<le> insert_pos \<and> insert_pos \<le> from_end")
  case True
  then show ?thesis
    by (simp add: move_inside move_1d_inside)
next
  case False
  then have out: "insert_pos < from_start \<or> from_end < insert_pos"
    by linarith
  show ?thesis
    using False move_outside [OF out] move_1d_outside [OF out] by blast
qed

theorem move_raises_iff_inside_witness:
  "(1::int) \<le> 2 \<and> (1::int) \<le> 2 \<and> (2::int) \<le> 2 \<and>
   move [[0, 1, 2], [3, 4, 5], [6, 7, 8]] 1 2 2 =
     Raised (InsertPosError 2 1 2) [[0, 1, 2], [3, 4, 5], [6, 7, 8]] \<and>
   move_1d [0, 1, 2] 1 2 2 = Raised (InsertPosError 2 1 2) [0, 1, 2] \<and>
   \<not> (\<exists>x y z a. move [[0, 1, 2], [3, 4, 5], [6, 7, 8]] 1 2 0 = Raised (InsertPosError x y z) a) \<and>
   \<not> (\<exists>x y z a. move_1d [0, 1, 2] 1 2 0 = Raised (InsertPosError x y z) a)"
proof -
  have h: "(1::int) \<le> 2" by simp
  show ?thesis
    using move_raises_iff_inside [OF h, of "[[0, 1, 2], [3, 4, 5], [6, 7, 8]]" 2 "[0, 1, 2]"]
      move_raises_iff_inside [OF h, of "[[0, 1, 2], [3, 4, 5], [6, 7, 8]]" 0 "[0, 1, 2]"]
    by simp
qed

section \<open>The parameters drawn by the neighbour generator\<close>

lemma randint_Inr:
  "randint a b r = Inr xr \<Longrightarrow> a \<le> fst xr \<and> fst xr \<le> b \<and> snd xr = (fst r, Suc (snd r))"
proof -
  assume h: "randint a b r = Inr xr"
  then have ab: "a \<le> b"
    by (auto simp: randint_def split: if_splits)
  have "int (fst r (snd r) mod nat (b - a + 1)) < int (nat (b - a + 1))"
    using ab by (intro iffD2 [OF of_nat_less_iff] mod_less_divisor) simp
  then show ?thesis
    using h ab by (auto simp: randint_def)
qed


lemma randint_total:
  "a \<le> b \<Longrightarrow> \<exists>x. randint a b r = Inr (x, (fst r, Suc (snd r))) \<and> a \<le> x \<and> x \<le> b"
proof -
  assume ab: "a \<le> b"
  then obtain xr where xr: "randint a b r = Inr xr"
    by (auto simp: randint_def)
  from randint_Inr [OF xr] xr show ?thesis
    by (cases xr) auto
qed

lemma block_body_total:
  assumes "3 \<le> n"
  shows "\<exists>fs fe. block_body n r = Inr ((fs - fe, fs, fe), (fst r, snd r + 2)) \<and>
           0 \<le> fs \<and> fs < fe \<and> fe \<le> n - 2"
proof -
  from assms obtain fs where fs: "randint 0 (n - 3) r = Inr (fs, (fst r, Suc (snd r)))"
      "0 \<le> fs" "fs \<le> n - 3"
    using randint_total [of 0 "n - 3" r] by auto
  then obtain fe where fe:
      "randint (fs + 1) (n - 2) (fst r, Suc (snd r)) = Inr (fe, (fst r, Suc (Suc (snd r))))"
      "fs + 1 \<le> fe" "fe \<le> n - 2"
    using randint_total [of "fs + 1" "n - 2" "(fst r, Suc (snd r))"] by auto
  show ?thesis
    using fs fe by (intro exI [of _ fs] exI [of _ fe]) (simp add: block_body_def)
qed

lemma resample_block_once:
  assumes "3 \<le> n"
  shows "\<exists>fs fe. block_body n r = Inr ((fs - fe, fs, fe), (fst r, snd r + 2)) \<and>
           0 \<le> fs \<and> fs < fe \<and> fe \<le> n - 2 \<and>
           resample_block n n None r = Some (Inr (Some (fs, fe), (fst r, snd r + 2)))"
proof -
  from block_body_total [OF assms] obtain fs fe where
    b: "block_body n r = Inr ((fs - fe, fs, fe), (fst r, snd r + 2))"
       "0 \<le> fs" "fs < fe" "fe \<le> n - 2"
    by blast
  have "resample_block n n None r =
          resample_block n (fs - fe) (Some (fs, fe)) (fst r, snd r + 2)"
    by (subst resample_block.simps) (simp add: b)
  also have "\<dots> = Some (Inr (Some (fs, fe), (fst r, snd r + 2)))"
    using b assms by (subst resample_block.simps) simp
  finally show ?thesis
    using b by blast
qed

text \<open>
  Claim C10. For \<open>n \<ge> 3\<close> the body of \<^verbatim>\<open>while block_len >= n - 1\<close> runs exactly once: the
  first execution of the body consumes two draws and yields a pair with
  \<open>from_start - from_end < 0\<close>, the loop test then fails, and the loop ends with that
  first pair.
\<close>

theorem resample_block_runs_once:
  assumes "3 \<le> n"
  shows "\<exists>from_start from_end.
           block_body n r =
             Inr ((from_start - from_end, from_start, from_end), (fst r, snd r + 2)) \<and>
           from_start - from_end < 0 \<and>
           \<not> (from_start - from_end \<ge> n - 1) \<and>
           resample_block n n None r =
             Some (Inr (Some (from_start, from_end), (fst r, snd r + 2)))"
proof -
  from resample_block_once [OF assms] obtain fs fe where
    "block_body n r = Inr ((fs - fe, fs, fe), (fst r, snd r + 2))"
    "0 \<le> fs" "fs < fe" "fe \<le> n - 2"
    "resample_block n n None r = Some (Inr (Some (fs, fe), (fst r, snd r + 2)))"
    by blast
  with assms show ?thesis
    by (intro exI [of _ fs] exI [of _ fe]) simp
qed

theorem resample_block_runs_once_witness:
  "(3::int) \<le> 3 \<and>
   block_body 3 (\<lambda>k. k, 0) = Inr ((0 - 1, 0, 1), (\<lambda>k. k, 2)) \<and>
   resample_block 3 3 None (\<lambda>k. k, 0) = Some (Inr (Some (0, 1), (\<lambda>k. k, 2)))"
proof -
  have h: "(3::int) \<le> 3" by simp
  have b: "block_body 3 (\<lambda>k. k, 0) = Inr ((0 - 1, 0, 1), (\<lambda>k. k, 2))"
    by (simp add: block_body_def randint_def)
  from resample_block_runs_once [OF h, of "(\<lambda>k. k, 0)"] obtain fs fe where
    "block_body 3 (\<lambda>k. k, 0) = Inr ((fs - fe, fs, fe), (fst (\<lambda>k. k, 0 :: nat), snd (\<lambda>k :: nat. k, 0 :: nat) + 2))"
    "resample_block 3 3 None (\<lambda>k. k, 0) =
       Some (Inr (Some (fs, fe), (fst (\<lambda>k. k, 0 :: nat), snd (\<lambda>k :: nat. k, 0 :: nat) + 2)))"
    by blast
  with b show ?thesis by simp
qed












lemmas draw_eval = draw_move_def block_body_def randint_def random_random_def
  resample_j.simps resample_block.simps resample_insert_pos.simps Let_def



section \<open>One iteration of the engine\<close>

lemma accept_simps:
  "current_score (accept perm tmp_cm tmp_score s) = tmp_score"
  "current_cm (accept perm tmp_cm tmp_score s) = tmp_cm"
  "current_perm (accept perm tmp_cm tmp_score s) = perm"
  "temp (accept perm tmp_cm tmp_score s) = temp s"
  "gen (accept perm tmp_cm tmp_score s) = gen s"
  "best_score (accept perm tmp_cm tmp_score s) = min (best_score s) tmp_score"
  "best_cm (accept perm tmp_cm tmp_score s) = (if best_score s > tmp_score then tmp_cm else best_cm s)"
  "best_perm (accept perm tmp_cm tmp_score s) = (if best_score s > tmp_score then perm else best_perm s)"
  by (simp_all add: accept_def Let_def)

text \<open>The shape of every successful iteration.\<close>

lemma sa_step_cases:
  assumes "sa_step score deterministic n w s = Some (Inr s')"
  obtains perm make_swap tmp_cm r1 tmp_score chance t r2 where
    "generate_permutation n (current_perm s) (current_cm s) (gen s) =
       Some (Inr ((perm, make_swap), tmp_cm, r1))"
    "score tmp_cm w = Inr tmp_score"
    "draw_chance deterministic (temp s) r1 = (chance, t, r2)"
    "t \<noteq> 0"
    "s' = (if chance \<le> hot_prob_thresh tmp_score (current_score s) t
          then accept perm tmp_cm tmp_score (s\<lparr>temp := t, gen := r2\<rparr>)
          else s\<lparr>temp := t, gen := r2\<rparr>)"
  using assms
  by (auto simp: sa_step_def Let_def split: option.splits sum.splits prod.splits if_splits)

lemma sa_step_best_score:
  assumes "sa_step score deterministic n w s = Some (Inr s')"
  shows "best_score s' \<le> best_score s"
  using assms by (rule sa_step_cases) (simp add: accept_simps)

lemma sa_loop_best_score:
  "sa_loop score deterministic n w k s = Some (Inr s') \<Longrightarrow> best_score s' \<le> best_score s"
proof (induction k arbitrary: s)
  case 0
  then show ?case by simp
next
  case (Suc k)
  from Suc.prems obtain s1 where
    s1: "sa_step score deterministic n w s = Some (Inr s1)"
        "sa_loop score deterministic n w k s1 = Some (Inr s')"
    by (auto split: option.splits sum.splits)
  from Suc.IH [OF s1(2)] sa_step_best_score [OF s1(1)] show ?case
    by simp
qed

lemma sa_loop_add:
  "sa_loop score deterministic n w (j + k) s =
     (case sa_loop score deterministic n w j s of
        None \<Rightarrow> None | Some (Inl e) \<Rightarrow> Some (Inl e)
      | Some (Inr s1) \<Rightarrow> sa_loop score deterministic n w k s1)"
  by (induction j arbitrary: s) (auto split: option.splits sum.splits)

lemma sa_loop_Suc_end:
  "sa_loop score deterministic n w (Suc k) s =
     (case sa_loop score deterministic n w k s of
        None \<Rightarrow> None | Some (Inl e) \<Rightarrow> Some (Inl e)
      | Some (Inr s1) \<Rightarrow> 
          (case sa_step score deterministic n w s1 of
             None \<Rightarrow> None | Some (Inl e) \<Rightarrow> Some (Inl e) | Some (Inr s2) \<Rightarrow> Some (Inr s2)))"
  using sa_loop_add [of score deterministic n w k 1 s]
  by (auto split: option.splits sum.splits)

lemma sa_step_invariant:
  assumes "sa_step score deterministic n w s = Some (Inr s')" "best_score s \<le> current_score s"
  shows "best_score s' \<le> current_score s'"
  using assms by (elim sa_step_cases) (simp add: accept_simps)

lemma sa_loop_invariant:
  "sa_loop score deterministic n w k s = Some (Inr s') \<Longrightarrow> best_score s \<le> current_score s \<Longrightarrow>
   best_score s' \<le> current_score s'"
proof (induction k arbitrary: s)
  case 0
  then show ?case by simp
next
  case (Suc k)
  from Suc.prems obtain s1 where
    s1: "sa_step score deterministic n w s = Some (Inr s1)"
        "sa_loop score deterministic n w k s1 = Some (Inr s')"
    by (auto split: option.splits sum.splits)
  from sa_step_invariant [OF s1(1) Suc.prems(2)] Suc.IH [OF s1(2)] show ?case
    by simp
qed

lemma sa_init_state:
  assumes "sa_init cm_arg perm_arg score temp_arg r = Inr s"
  shows "best_score s = current_score s" "best_cm s = current_cm s" "best_perm s = current_perm s"
        "temp s = temp_arg" "gen s = r"
        "current_perm s = (case perm_arg of None \<Rightarrow> [0..int (length cm_arg) - 1] | Some p \<Rightarrow> p)"
        "apply_permutation cm_arg (current_perm s) = Inr (current_cm s)"
        "score (current_cm s) (calculate_weight_matrix (int (length cm_arg))) = Inr (current_score s)"
  using assms by (auto simp: sa_init_def Let_def split: sum.splits)

lemma sa_step_best_replaced:
  assumes "sa_step score deterministic n w s = Some (Inr s')"
  shows "(best_score s' = best_score s \<and> best_cm s' = best_cm s \<and> best_perm s' = best_perm s) \<or>
         (best_score s' < best_score s \<and> best_score s' = current_score s' \<and>
          best_cm s' = current_cm s' \<and> best_perm s' = current_perm s')"
  using assms by (rule sa_step_cases) (auto simp: accept_simps)

lemma sa_run_cases:
  assumes "sa_run cm_arg perm_arg score steps temp_arg cooling_factor deterministic r = Some (Inr s)"
  obtains s0 where "0 < temp_arg" "0 < cooling_factor" "cooling_factor < 1"
    "sa_init cm_arg perm_arg score temp_arg r = Inr s0"
    "sa_loop score deterministic (int (length cm_arg))
       (calculate_weight_matrix (int (length cm_arg))) (nat steps) s0 = Some (Inr s)"
  using assms by (auto simp: sa_run_def split: if_splits sum.splits)

lemma sa_step_temp:
  assumes "sa_step score deterministic n w s = Some (Inr s')"
  shows "temp s' = (if deterministic then temp s else temp s * (99 / 100))"
  using assms
  by (rule sa_step_cases) (auto simp: accept_simps draw_chance_def Let_def split: if_splits)

lemma sa_loop_temp:
  "sa_loop score deterministic n w k s = Some (Inr s') \<Longrightarrow>
   temp s' = (if deterministic then temp s else temp s * (99 / 100) ^ k)"
proof (induction k arbitrary: s)
  case 0
  then show ?case by simp
next
  case (Suc k)
  from Suc.prems obtain s1 where
    s1: "sa_step score deterministic n w s = Some (Inr s1)"
        "sa_loop score deterministic n w k s1 = Some (Inr s')"
    by (auto split: option.splits sum.splits)
  from Suc.IH [OF s1(2)] sa_step_temp [OF s1(1)] show ?case
    by simp
qed


section \<open>Rounding and the acceptance threshold\<close>

lemma round_half_even_ge: "of_int n \<le> x \<Longrightarrow> n \<le> round_half_even x"
proof -
  assume "of_int n \<le> x"
  then have "n \<le> \<lfloor>x\<rfloor>" by (simp add: le_floor_iff)
  then show ?thesis
    by (auto simp: round_half_even_def Let_def)
qed

lemma round_half_even_le: "x \<le> of_int n \<Longrightarrow> round_half_even x \<le> n"
proof (cases "x = of_int n")
  case True
  then show ?thesis by (simp add: round_half_even_def)
next
  case False
  assume "x \<le> of_int n"
  with False have "x < of_int n" by simp
  then have "\<lfloor>x\<rfloor> < n" by (simp add: floor_less_iff)
  then show ?thesis
    by (auto simp: round_half_even_def Let_def)
qed

lemma round_half_even_near:
  assumes "of_int n - 1 / 2 < x" "x \<le> of_int n"
  shows "round_half_even x = n"
proof (cases "x = of_int n")
  case True
  then show ?thesis by (simp add: round_half_even_def)
next
  case False
  with assms have lt: "x < of_int n" by simp
  have "\<lfloor>x\<rfloor> = n - 1"
    using assms lt by (intro floor_unique) simp_all
  then show ?thesis
    using assms by (simp add: round_half_even_def Let_def)
qed

text \<open>The binade of a positive number.\<close>

lemma exponent_bounds:
  assumes "0 < x"
  shows "2 powr of_int \<lfloor>log 2 x\<rfloor> \<le> x" "x < 2 powr (of_int \<lfloor>log 2 x\<rfloor> + 1)"
proof -
  have "of_int \<lfloor>log 2 x\<rfloor> \<le> log 2 x"
    by (rule of_int_floor_le)
  with le_log_iff [of 2 x "of_int \<lfloor>log 2 x\<rfloor>"] assms
  show "2 powr of_int \<lfloor>log 2 x\<rfloor> \<le> x"
    by simp
  have "log 2 x < of_int \<lfloor>log 2 x\<rfloor> + 1"
    by linarith
  with log_less_iff [of 2 x "of_int \<lfloor>log 2 x\<rfloor> + 1"] assms
  show "x < 2 powr (of_int \<lfloor>log 2 x\<rfloor> + 1)"
    by simp
qed

lemma exponent_ge: "0 < x \<Longrightarrow> 2 powr of_int k \<le> x \<Longrightarrow> k \<le> \<lfloor>log 2 x\<rfloor>"
  by (simp add: le_floor_iff le_log_iff)

lemma exponent_less: "0 < x \<Longrightarrow> x < 2 powr of_int k \<Longrightarrow> \<lfloor>log 2 x\<rfloor> < k"
  by (simp add: floor_less_iff log_less_iff)

lemma ulp_scale:
  "2 ^ 52 * 2 powr (of_int e - 52) = (2::real) powr of_int e"
  "2 ^ 53 * 2 powr (of_int e - 52) = (2::real) powr (of_int e + 1)"
proof -
  have a: "(2::real) ^ 52 = 2 powr 52" and b: "(2::real) ^ 53 = 2 powr 53"
    by simp_all
  have "(2::real) ^ 52 * 2 powr (of_int e - 52) = 2 powr (52 + (of_int e - 52))"
    by (simp only: a powr_add)
  also have "\<dots> = 2 powr of_int e"
    by (rule arg_cong [where f = "\<lambda>z. 2 powr z"]) simp
  finally show "2 ^ 52 * 2 powr (of_int e - 52) = (2::real) powr of_int e" .
  have "(2::real) ^ 53 * 2 powr (of_int e - 52) = 2 powr (53 + (of_int e - 52))"
    by (simp only: b powr_add)
  also have "\<dots> = 2 powr (of_int e + 1)"
    by (rule arg_cong [where f = "\<lambda>z. 2 powr z"]) simp
  finally show "2 ^ 53 * 2 powr (of_int e - 52) = (2::real) powr (of_int e + 1)" .
qed

lemma float64_pos:
  assumes "0 < x"
  shows "float64 x = of_int (round_half_even (x / 2 powr (of_int \<lfloor>log 2 x\<rfloor> - 52))) *
                       2 powr (of_int \<lfloor>log 2 x\<rfloor> - 52)"
  using assms by (simp add: float64_def Let_def)

lemma float64_minus: "float64 (- x) = - float64 x"
  by (simp add: float64_def Let_def sgn_minus)

lemma float64_zero: "float64 0 = 0"
  by (simp add: float64_def)

lemma float64_binade:
  assumes "0 < x"
  shows "2 powr of_int \<lfloor>log 2 x\<rfloor> \<le> float64 x"
    and "float64 x \<le> 2 powr (of_int \<lfloor>log 2 x\<rfloor> + 1)"
proof -
  let ?e = "\<lfloor>log 2 x\<rfloor>"
  let ?u = "(2::real) powr (of_int ?e - 52)"
  let ?r = "round_half_even (x / ?u)"
  have u: "0 < ?u" by simp
  note sc = ulp_scale [of ?e]
  have "2 ^ 52 * ?u \<le> x"
    using exponent_bounds(1) [OF assms] by (simp only: sc(1))
  then have lo: "of_int (2 ^ 52) \<le> x / ?u"
    using u by (simp add: pos_le_divide_eq)
  have "x \<le> 2 ^ 53 * ?u"
    using exponent_bounds(2) [OF assms] by (simp only: sc(2))
  then have hi: "x / ?u \<le> of_int (2 ^ 53)"
    using u by (simp add: pos_divide_le_eq)
  have "(2 ^ 52 :: int) \<le> ?r"
    using lo by (rule round_half_even_ge)
  then have "real_of_int (2 ^ 52) \<le> of_int ?r"
    by (simp only: of_int_le_iff)
  then have "(2 ^ 52 :: real) \<le> of_int ?r"
    by simp
  then have A: "2 ^ 52 * ?u \<le> of_int ?r * ?u"
    by (rule mult_right_mono) simp
  have "2 powr of_int ?e = 2 ^ 52 * ?u"
    by (rule sc(1) [symmetric])
  also note A
  also have "of_int ?r * ?u = float64 x"
    by (rule float64_pos [OF assms, symmetric])
  finally show "2 powr of_int ?e \<le> float64 x" .
  have "?r \<le> (2 ^ 53 :: int)"
    using hi by (rule round_half_even_le)
  then have "real_of_int ?r \<le> of_int (2 ^ 53)"
    by (simp only: of_int_le_iff)
  then have "of_int ?r \<le> (2 ^ 53 :: real)"
    by simp
  then have B: "of_int ?r * ?u \<le> 2 ^ 53 * ?u"
    by (rule mult_right_mono) simp
  have "float64 x = of_int ?r * ?u"
    by (rule float64_pos [OF assms])
  also note B
  also have "2 ^ 53 * ?u = 2 powr (of_int ?e + 1)"
    by (rule sc(2))
  finally show "float64 x \<le> 2 powr (of_int ?e + 1)" .
qed

lemma float64_ge_power: "0 < x \<Longrightarrow> 2 powr of_int k \<le> x \<Longrightarrow> 2 powr of_int k \<le> float64 x"
proof -
  assume x: "0 < x" and k: "2 powr of_int k \<le> x"
  from exponent_ge [OF x k] have "2 powr of_int k \<le> (2::real) powr of_int \<lfloor>log 2 x\<rfloor>"
    by simp
  with float64_binade(1) [OF x] show ?thesis
    by linarith
qed

lemma float64_le_power: "0 < x \<Longrightarrow> x < 2 powr of_int k \<Longrightarrow> float64 x \<le> 2 powr of_int k"
proof -
  assume x: "0 < x" and k: "x < 2 powr of_int k"
  from exponent_less [OF x k] have "of_int \<lfloor>log 2 x\<rfloor> + 1 \<le> (of_int k :: real)"
    by linarith
  then have "(2::real) powr (of_int \<lfloor>log 2 x\<rfloor> + 1) \<le> 2 powr of_int k"
    by simp
  with float64_binade(2) [OF x] show ?thesis
    by linarith
qed

lemma float64_nonneg: "0 \<le> x \<Longrightarrow> 0 \<le> float64 x"
proof (cases "x = 0")
  case True
  then show ?thesis by (simp add: float64_zero)
next
  case False
  assume "0 \<le> x"
  with False have x: "0 < x" by simp
  have "0 \<le> (2::real) powr of_int \<lfloor>log 2 x\<rfloor>" by simp
  with float64_binade(1) [OF x] show ?thesis by linarith
qed

lemma pow2_neg: "(2::real) powr (- 52) = 1 / 2 ^ 52" "(2::real) powr (- 53) = 1 / 2 ^ 53"
  "(2::real) powr (- 55) = 1 / 2 ^ 55" "(2::real) powr (- 1) = 1 / 2"
  by (simp_all add: powr_minus divide_simps)

lemma float64_below_one:
  assumes "0 < x" "x \<le> 1 - 1 / 2 ^ 53"
  shows "float64 x \<le> 1 - 1 / 2 ^ 53"
proof -
  let ?e = "\<lfloor>log 2 x\<rfloor>"
  have "x < 2 powr of_int 0"
    using assms(2) by simp
  from exponent_less [OF assms(1) this] have e: "?e \<le> - 1"
    by linarith
  show ?thesis
  proof (cases "?e = - 1")
    case True
    have u: "(2::real) powr (of_int ?e - 52) = 1 / 2 ^ 53"
      unfolding True using pow2_neg(2) by simp
    have "x / (1 / 2 ^ 53) \<le> of_int (2 ^ 53 - 1)"
      using assms(2) by (simp add: field_simps)
    then have "round_half_even (x / (1 / 2 ^ 53)) \<le> 2 ^ 53 - 1"
      by (rule round_half_even_le)
    then have "real_of_int (round_half_even (x / (1 / 2 ^ 53))) \<le> of_int (2 ^ 53 - 1)"
      by (simp only: of_int_le_iff)
    then have "of_int (round_half_even (x / (1 / 2 ^ 53))) * (1 / 2 ^ 53) \<le>
        (of_int (2 ^ 53 - 1) :: real) * (1 / 2 ^ 53)"
      by (rule mult_right_mono) simp
    also have "(of_int (2 ^ 53 - 1) :: real) * (1 / 2 ^ 53) = 1 - 1 / 2 ^ 53"
      by simp
    finally show ?thesis
      by (simp only: float64_pos [OF assms(1)] u)
  next
    case False
    with e have le: "of_int ?e + 1 \<le> (- 1 :: real)"
      by linarith
    have "(2::real) powr (of_int ?e + 1) \<le> 2 powr (- 1)"
      by (rule powr_mono [OF le]) simp
    also have "\<dots> = 1 / 2"
      by (rule pow2_neg(4))
    finally have "(2::real) powr (of_int ?e + 1) \<le> 1 / 2" .
    with float64_binade(2) [OF assms(1)] have "float64 x \<le> 1 / 2"
      by linarith
    then show ?thesis
      by simp
  qed
qed

lemma round_half_even_int: "round_half_even (of_int n) = n"
  by (simp add: round_half_even_def)

lemma float64_near_one:
  assumes "1 - 1 / 2 ^ 54 < x" "x \<le> 1"
  shows "float64 x = 1"
proof (cases "x = 1")
  case True
  have "round_half_even (1 / (1 / 2 ^ 52)) = 2 ^ 52"
    using round_half_even_int [of "2 ^ 52"] by simp
  then show ?thesis
    unfolding True by (simp add: float64_def pow2_neg(1))
next
  case False
  with assms have lt: "x < 1" and pos: "0 < x"
    by simp_all
  have "\<lfloor>log 2 x\<rfloor> = - 1"
  proof (rule floor_unique)
    have "2 powr (- 1) \<le> x"
      using assms(1) by (simp add: pow2_neg(4))
    with le_log_iff [of 2 x "- 1"] pos show "of_int (- 1) \<le> log 2 x"
      by simp
    have "x < 2 powr 0"
      using lt by simp
    with log_less_iff [of 2 x 0] pos show "log 2 x < of_int (- 1) + 1"
      by simp
  qed
  then have u: "(2::real) powr (of_int \<lfloor>log 2 x\<rfloor> - 52) = 1 / 2 ^ 53"
    using pow2_neg(2) by simp
  have "round_half_even (x / (1 / 2 ^ 53)) = 2 ^ 53"
  proof (rule round_half_even_near)
    show "of_int (2 ^ 53) - 1 / 2 < x / (1 / 2 ^ 53)"
      using assms(1) by (simp add: field_simps)
    show "x / (1 / 2 ^ 53) \<le> of_int (2 ^ 53)"
      using assms(2) by (simp add: field_simps)
  qed
  then show ?thesis
    by (simp add: float64_pos [OF pos] u)
qed

lemma float64_ge_one: "1 \<le> x \<Longrightarrow> 1 \<le> float64 x"
  using float64_ge_power [of x 0] by simp

text \<open>The threshold of the acceptance test.\<close>

lemma hot_prob_thresh_improving:
  assumes "0 < t" "tmp_score \<le> old_score"
  shows "hot_prob_thresh tmp_score old_score t = 1"
proof -
  let ?a = "float64 (of_int (- (tmp_score - old_score)))"
  have "0 \<le> ?a"
    using assms(2) by (intro float64_nonneg) simp
  then have "0 \<le> float_div ?a t"
    unfolding float_div_def using assms(1) by (intro float64_nonneg) simp
  then have "1 \<le> exp (float_div ?a t)"
    by simp
  then have "1 \<le> np_exp (float_div ?a t)"
    unfolding np_exp_def by (rule float64_ge_one)
  then show ?thesis
    by (simp add: hot_prob_thresh_def)
qed

lemma threshold_argument:
  "float_div (float64 (of_int (- k))) t = - float64 (float64 (of_int k) / t)"
  by (simp only: float_div_def of_int_minus float64_minus minus_divide_left [symmetric])

lemma exp_small: "exp (- (1 / 2 ^ 52)) \<le> (1 - 1 / 2 ^ 53 :: real)"
proof -
  have "1 + 1 / 2 ^ 52 \<le> exp (1 / 2 ^ 52 :: real)"
    by (rule exp_ge_add_one_self)
  then have "1 / exp (1 / 2 ^ 52 :: real) \<le> 1 / (1 + 1 / 2 ^ 52)"
    by (intro divide_left_mono) simp_all
  also have "1 / (1 + 1 / 2 ^ 52) \<le> (1 - 1 / 2 ^ 53 :: real)"
    by simp
  finally show ?thesis
    by (simp add: exp_minus inverse_eq_divide)
qed

lemma hot_prob_thresh_worse:
  assumes "0 < t" "t \<le> 2 ^ 52" "old_score < tmp_score"
  shows "hot_prob_thresh tmp_score old_score t < 1"
proof -
  let ?d = "real_of_int (tmp_score - old_score)"
  let ?y = "float_div (float64 (of_int (- (tmp_score - old_score)))) t"
  have d: "1 \<le> ?d"
    using assms(3) by simp
  then have fd: "1 \<le> float64 ?d"
    by (rule float64_ge_one)
  have "1 / 2 ^ 52 \<le> 1 / t"
    using assms(1,2) by (intro divide_left_mono) simp_all
  also have "1 / t \<le> float64 ?d / t"
    using fd assms(1) by (intro divide_right_mono) simp_all
  finally have "1 / 2 ^ 52 \<le> float64 ?d / t" .
  then have q: "2 powr of_int (- 52) \<le> float64 ?d / t"
    by (simp only: of_int_minus of_int_numeral pow2_neg(1))
  have qpos: "0 < float64 ?d / t"
    using fd assms(1) by simp
  have "2 powr of_int (- 52) \<le> float64 (float64 ?d / t)"
    by (rule float64_ge_power [OF qpos q])
  then have lo: "1 / 2 ^ 52 \<le> float64 (float64 ?d / t)"
    by (simp only: of_int_minus of_int_numeral pow2_neg(1))
  have y: "?y = - float64 (float64 ?d / t)"
    by (rule threshold_argument)
  have "?y \<le> - (1 / 2 ^ 52)"
    unfolding y using lo by linarith
  then have "exp ?y \<le> exp (- (1 / 2 ^ 52))"
    by simp
  with exp_small have "exp ?y \<le> 1 - 1 / 2 ^ 53"
    by linarith
  then have "float64 (exp ?y) \<le> 1 - 1 / 2 ^ 53"
    by (intro float64_below_one) simp_all
  moreover have "(1 - 1 / 2 ^ 53 :: real) < 1"
    by simp
  ultimately have "np_exp ?y < 1"
    unfolding np_exp_def by linarith
  then show ?thesis
    by (simp add: hot_prob_thresh_def)
qed

lemma hot_prob_thresh_saturates:
  assumes "old_score < tmp_score" "real_of_int (tmp_score - old_score) * 2 ^ 57 \<le> t"
  shows "hot_prob_thresh tmp_score old_score t = 1"
proof -
  let ?d = "real_of_int (tmp_score - old_score)"
  let ?y = "float_div (float64 (of_int (- (tmp_score - old_score)))) t"
  have d: "1 \<le> ?d"
    using assms(1) by simp
  then have dpos: "0 < ?d" by simp
  have "0 < ?d * 2 ^ 57"
    using dpos by simp
  with assms(2) have tpos: "0 < t"
    by linarith
  have "float64 ?d \<le> 2 powr (of_int \<lfloor>log 2 ?d\<rfloor> + 1)"
    by (rule float64_binade(2) [OF dpos])
  also have "\<dots> = 2 powr of_int \<lfloor>log 2 ?d\<rfloor> * 2"
    by (simp add: powr_add)
  also have "\<dots> \<le> ?d * 2"
    by (rule mult_right_mono [OF exponent_bounds(1) [OF dpos]]) simp
  finally have fd: "float64 ?d \<le> ?d * 2" .
  have fdpos: "0 < float64 ?d"
    using float64_ge_one [OF d] by linarith
  have "float64 ?d * 2 ^ 56 \<le> (?d * 2) * 2 ^ 56"
    by (rule mult_right_mono [OF fd]) simp
  also have "\<dots> = ?d * 2 ^ 57"
    by simp
  also note assms(2)
  finally have "float64 ?d * 2 ^ 56 \<le> t" .
  then have "float64 ?d \<le> t / 2 ^ 56"
    by (simp add: pos_le_divide_eq)
  then have "float64 ?d / t \<le> 1 / 2 ^ 56"
    using tpos by (simp add: pos_divide_le_eq mult.commute)
  moreover have "(1 / 2 ^ 56 :: real) < 1 / 2 ^ 55"
    by simp
  ultimately have "float64 ?d / t < 1 / 2 ^ 55"
    by linarith
  then have qlt: "float64 ?d / t < 2 powr of_int (- 55)"
    by (simp only: of_int_minus of_int_numeral pow2_neg(3))
  have qpos: "0 < float64 ?d / t"
    using fdpos tpos by simp
  have "float64 (float64 ?d / t) \<le> 2 powr of_int (- 55)"
    by (rule float64_le_power [OF qpos qlt])
  then have up: "float64 (float64 ?d / t) \<le> 1 / 2 ^ 55"
    by (simp only: of_int_minus of_int_numeral pow2_neg(3))
  have lo: "0 \<le> float64 (float64 ?d / t)"
    using qpos by (intro float64_nonneg) simp
  have y: "?y = - float64 (float64 ?d / t)"
    by (rule threshold_argument)
  have "1 + ?y \<le> exp ?y"
    by (rule exp_ge_add_one_self)
  moreover have "(1 - 1 / 2 ^ 54 :: real) < 1 - 1 / 2 ^ 55"
    by simp
  ultimately have "1 - 1 / 2 ^ 54 < exp ?y"
    unfolding y using up by linarith
  moreover have "exp ?y \<le> 1"
    using lo unfolding y by simp
  ultimately have "float64 (exp ?y) = 1"
    by (rule float64_near_one)
  then show ?thesis
    by (simp add: hot_prob_thresh_def np_exp_def)
qed

section \<open>A run on the matrix of the docstrings\<close>

text \<open>
  No initial permutation, temperature \<open>100\<close>. The first candidate swaps classes \<open>1\<close> and
  \<open>2\<close> and scores \<open>28\<close>; the second swaps them back and scores \<open>32\<close>.
\<close>

lemmas transform_eval = apply_move_def swap_def swap_1d_def move_def move_1d_def reindex_def
  reindex_cols_def p_new_def norm_index_def norm_indices_def ncols_def fancy_get_def
  fancy_set_def

lemma example_init:
  "sa_init example_cm None calculate_score 100 (\<lambda>k. k, 0) =
     Inr (example_state example_cm [0, 1, 2] 32 100 0)"
  by (simp add: sa_init_def apply_permutation_def transpose_m_def norm_indices_def norm_index_def
      ncols_def fancy_get_def score_eval Let_def)

lemma example_candidate_1:
  "generate_permutation 3 [0, 1, 2] example_cm (\<lambda>k. k, 0) =
     Some (Inr (([0, 2, 1], True), example_cm_swapped, (\<lambda>k. k, 3)))"
  by (simp add: generate_permutation_def draw_eval transform_eval)

lemma example_candidate_2:
  "generate_permutation 3 [0, 2, 1] example_cm_swapped (\<lambda>k. k, 3) =
     Some (Inr (([0, 1, 2], True), example_cm, (\<lambda>k. k, 6)))"
  by (simp add: generate_permutation_def draw_eval transform_eval)

lemma example_score_0:
  "calculate_score example_cm (calculate_weight_matrix 3) = Inr 32"
  by (simp add: score_eval)

lemma example_score_1:
  "calculate_score example_cm_swapped (calculate_weight_matrix 3) = Inr 28"
  by (simp add: score_eval)

lemma example_step_1:
  "sa_step calculate_score True 3 (calculate_weight_matrix 3)
     (example_state example_cm [0, 1, 2] 32 100 0) =
   Some (Inr (example_state example_cm_swapped [0, 2, 1] 28 100 3))"
  by (simp add: sa_step_def example_candidate_1 example_score_1 draw_chance_def accept_def
      hot_prob_thresh_improving)

lemma example_step_2:
  "sa_step calculate_score True 3 (calculate_weight_matrix 3)
     (example_state example_cm_swapped [0, 2, 1] 28 100 3) =
   Some (Inr (example_state example_cm_swapped [0, 2, 1] 28 100 6))"
proof -
  have "hot_prob_thresh 32 28 100 < 1"
    by (rule hot_prob_thresh_worse) simp_all
  then have "\<not> 1 \<le> hot_prob_thresh 32 28 100"
    by simp
  then show ?thesis
    by (simp add: sa_step_def example_candidate_2 example_score_0 draw_chance_def accept_def)
qed

lemma example_step_random:
  "sa_step calculate_score False 3 (calculate_weight_matrix 3)
     (example_state example_cm [0, 1, 2] 32 100 0) =
   Some (Inr (example_state example_cm_swapped [0, 2, 1] 28 99 4))"
  by (simp add: sa_step_def example_candidate_1 example_score_1 draw_chance_def accept_def
      random_random_def hot_prob_thresh_improving)

lemma example_loop_1:
  "sa_loop calculate_score True 3 (calculate_weight_matrix 3) (Suc 0)
     (example_state example_cm [0, 1, 2] 32 100 0) =
   Some (Inr (example_state example_cm_swapped [0, 2, 1] 28 100 3))"
  by (simp add: example_step_1)

lemma example_loop_2:
  "sa_loop calculate_score True 3 (calculate_weight_matrix 3) (Suc (Suc 0))
     (example_state example_cm [0, 1, 2] 32 100 0) =
   Some (Inr (example_state example_cm_swapped [0, 2, 1] 28 100 6))"
  by (simp add: example_step_1 example_step_2)

lemma example_loop_random:
  "sa_loop calculate_score False 3 (calculate_weight_matrix 3) (Suc 0)
     (example_state example_cm [0, 1, 2] 32 100 0) =
   Some (Inr (example_state example_cm_swapped [0, 2, 1] 28 99 4))"
  by (simp add: example_step_random)

lemma example_run:
  "sa_run example_cm None calculate_score 2 100 (99 / 100) True (\<lambda>k. k, 0) =
   Some (Inr (example_state example_cm_swapped [0, 2, 1] 28 100 6))"
proof -
  have two: "nat 2 = Suc (Suc 0)" by simp
  show ?thesis
    unfolding sa_run_def two
    by (simp add: example_init example_loop_2 del: sa_loop.simps)
qed


section \<open>Acceptance, best state and temperature\<close>

text \<open>
  Claim C3, as amended. In a run with \<open>deterministic = true\<close> whose temperature is at
  most \<open>2\<^sup>5\<^sup>2\<close>, at every iteration the acceptance draw is \<open>1\<close> (the temperature and the
  generator are left alone), the threshold reaches \<open>1\<close> exactly when the candidate's
  score is at most the current score, and the candidate becomes the current state
  exactly in that case.
\<close>

theorem deterministic_accepts_iff_not_worse:
  assumes "0 < temp_arg" and "temp_arg \<le> 2 ^ 52"
    and "sa_init cm_arg perm_arg score temp_arg r = Inr s0"
    and "sa_loop score True n w k s0 = Some (Inr s)"
    and "generate_permutation n (current_perm s) (current_cm s) (gen s) =
           Some (Inr ((perm, make_swap), tmp_cm, r1))"
    and "score tmp_cm w = Inr tmp_score"
  shows "draw_chance True (temp s) r1 = (1, temp s, r1) \<and>
         ((1 \<le> hot_prob_thresh tmp_score (current_score s) (temp s))
            = (tmp_score \<le> current_score s)) \<and>
         sa_step score True n w s =
           Some (Inr (if tmp_score \<le> current_score s
                      then accept perm tmp_cm tmp_score (s\<lparr>gen := r1\<rparr>)
                      else s\<lparr>gen := r1\<rparr>))"
proof -
  have "temp s = temp_arg"
    using sa_loop_temp [OF assms(4)] sa_init_state(4) [OF assms(3)] by simp
  with assms(1,2) have pos: "0 < temp s" and bound: "temp s \<le> 2 ^ 52"
    by simp_all
  have eq: "s\<lparr>temp := temp s, gen := r1\<rparr> = s\<lparr>gen := r1\<rparr>"
    by simp
  have thresh: "(1 \<le> hot_prob_thresh tmp_score (current_score s) (temp s))
      = (tmp_score \<le> current_score s)"
  proof (cases "tmp_score \<le> current_score s")
    case True
    with hot_prob_thresh_improving [OF pos True] show ?thesis
      by simp
  next
    case False
    then have "current_score s < tmp_score"
      by simp
    from hot_prob_thresh_worse [OF pos bound this] False show ?thesis
      by simp
  qed
  have "sa_step score True n w s =
      Some (Inr (if 1 \<le> hot_prob_thresh tmp_score (current_score s) (temp s)
                 then accept perm tmp_cm tmp_score (s\<lparr>gen := r1\<rparr>)
                 else s\<lparr>gen := r1\<rparr>))"
    using pos by (simp add: sa_step_def assms(5,6) draw_chance_def eq)
  then show ?thesis
    by (simp only: thresh) (simp add: draw_chance_def)
qed

theorem deterministic_accepts_iff_not_worse_witness:
  "(0::real) < 100 \<and> (100::real) \<le> 2 ^ 52 \<and>
   sa_init example_cm None calculate_score 100 (\<lambda>k. k, 0) =
     Inr (example_state example_cm [0, 1, 2] 32 100 0) \<and>
   sa_loop calculate_score True 3 (calculate_weight_matrix 3) (Suc 0)
     (example_state example_cm [0, 1, 2] 32 100 0) =
     Some (Inr (example_state example_cm_swapped [0, 2, 1] 28 100 3)) \<and>
   generate_permutation 3 [0, 2, 1] example_cm_swapped (\<lambda>k. k, 3) =
     Some (Inr (([0, 1, 2], True), example_cm, (\<lambda>k. k, 6))) \<and>
   calculate_score example_cm (calculate_weight_matrix 3) = Inr 32 \<and>
   \<not> (32::int) \<le> 28 \<and>
   sa_step calculate_score True 3 (calculate_weight_matrix 3)
     (example_state example_cm_swapped [0, 2, 1] 28 100 3) =
     Some (Inr (example_state example_cm_swapped [0, 2, 1] 28 100 6))"
proof -
  have pos: "(0::real) < 100" and bound: "(100::real) \<le> 2 ^ 52"
    by simp_all
  have g: "generate_permutation 3
      (current_perm (example_state example_cm_swapped [0, 2, 1] 28 100 3))
      (current_cm (example_state example_cm_swapped [0, 2, 1] 28 100 3))
      (gen (example_state example_cm_swapped [0, 2, 1] 28 100 3)) =
     Some (Inr (([0, 1, 2], True), example_cm, (\<lambda>k. k, 6)))"
    by (simp add: example_candidate_2)
  show ?thesis
    using deterministic_accepts_iff_not_worse
      [OF pos bound example_init example_loop_1 g example_score_0]
      example_init example_loop_1 example_candidate_2 example_score_0
    by simp
qed

text \<open>
  Claim C3 as stated, for every positive temperature, fails: at temperature \<open>10\<^sup>1\<^sup>8\<close> the
  quotient \<open>-4 / 10\<^sup>1\<^sup>8\<close> is so small that its exponential rounds to \<open>1.0\<close>, and the second
  iteration of the run on the matrix of the docstrings accepts a candidate of score \<open>32\<close>
  over the current score \<open>28\<close>.
\<close>

theorem deterministic_accepts_worse_counterexample:
  "sa_init example_cm None calculate_score (10 ^ 18) (id, 0) =
     Inr \<lparr>current_cm = example_cm, current_perm = [0, 1, 2], current_score = 32,
          best_cm = example_cm, best_perm = [0, 1, 2], best_score = 32,
          temp = 10 ^ 18, gen = (id, 0)\<rparr> \<and>
   sa_loop calculate_score True 3 (calculate_weight_matrix 3) (Suc 0)
     \<lparr>current_cm = example_cm, current_perm = [0, 1, 2], current_score = 32,
      best_cm = example_cm, best_perm = [0, 1, 2], best_score = 32,
      temp = 10 ^ 18, gen = (id, 0)\<rparr> =
     Some (Inr \<lparr>current_cm = example_cm_swapped, current_perm = [0, 2, 1], current_score = 28,
        best_cm = example_cm_swapped, best_perm = [0, 2, 1], best_score = 28,
        temp = 10 ^ 18, gen = (id, 3)\<rparr>) \<and>
   generate_permutation 3 [0, 2, 1] example_cm_swapped (id, 3) =
     Some (Inr (([0, 1, 2], True), example_cm, (id, 6))) \<and>
   calculate_score example_cm (calculate_weight_matrix 3) = Inr 32 \<and>
   \<not> (32::int) \<le> 28 \<and>
   sa_step calculate_score True 3 (calculate_weight_matrix 3)
     \<lparr>current_cm = example_cm_swapped, current_perm = [0, 2, 1], current_score = 28,
      best_cm = example_cm_swapped, best_perm = [0, 2, 1], best_score = 28,
      temp = 10 ^ 18, gen = (id, 3)\<rparr> =
     Some (Inr \<lparr>current_cm = example_cm, current_perm = [0, 1, 2], current_score = 32,
        best_cm = example_cm_swapped, best_perm = [0, 2, 1], best_score = 28,
        temp = 10 ^ 18, gen = (id, 6)\<rparr>)"
proof -
  have init: "sa_init example_cm None calculate_score (10 ^ 18) (\<lambda>k. k, 0) =
      Inr (example_state example_cm [0, 1, 2] 32 (10 ^ 18) 0)"
    by (simp add: sa_init_def apply_permutation_def transpose_m_def norm_indices_def
        norm_index_def ncols_def fancy_get_def score_eval Let_def)
  have one: "hot_prob_thresh 28 32 (10 ^ 18) = 1"
    by (rule hot_prob_thresh_improving) simp_all
  have step1: "sa_step calculate_score True 3 (calculate_weight_matrix 3)
      (example_state example_cm [0, 1, 2] 32 (10 ^ 18) 0) =
      Some (Inr (example_state example_cm_swapped [0, 2, 1] 28 (10 ^ 18) 3))"
    using one
    by (simp add: sa_step_def example_candidate_1 example_score_1 draw_chance_def accept_def)
  have sat: "hot_prob_thresh 32 28 (10 ^ 18) = 1"
    by (rule hot_prob_thresh_saturates) simp_all
  have step2: "sa_step calculate_score True 3 (calculate_weight_matrix 3)
      (example_state example_cm_swapped [0, 2, 1] 28 (10 ^ 18) 3) =
      Some (Inr \<lparr>current_cm = example_cm, current_perm = [0, 1, 2], current_score = 32,
        best_cm = example_cm_swapped, best_perm = [0, 2, 1], best_score = 28,
        temp = 10 ^ 18, gen = (\<lambda>k. k, 6)\<rparr>)"
    using sat
    by (simp add: sa_step_def example_candidate_2 example_score_0 draw_chance_def accept_def)
  show ?thesis
    unfolding id_def
    using init step1 step2 example_candidate_2 example_score_0 by simp
qed

text \<open>
  Claim C4. With \<open>deterministic = true\<close> the best score never increases: not over one
  iteration, and not between any two moments of a run.
\<close>

theorem deterministic_best_score_never_increases:
  "(sa_step score True n w s = Some (Inr s') \<longrightarrow> best_score s' \<le> best_score s) \<and>
   (sa_init cm_arg perm_arg score temp_arg r = Inr s0 \<and>
    sa_loop score True n w j s0 = Some (Inr s1) \<and>
    sa_loop score True n w k s1 = Some (Inr s2) \<longrightarrow>
      best_score s2 \<le> best_score s1 \<and> best_score s1 \<le> best_score s0)"
  using sa_step_best_score [of score True n w s s']
    sa_loop_best_score [of score True n w j s0 s1]
    sa_loop_best_score [of score True n w k s1 s2]
  by blast

theorem deterministic_best_score_never_increases_witness:
  "sa_step calculate_score True 3 (calculate_weight_matrix 3)
     (example_state example_cm [0, 1, 2] 32 100 0) =
     Some (Inr (example_state example_cm_swapped [0, 2, 1] 28 100 3)) \<and>
   sa_init example_cm None calculate_score 100 (\<lambda>k. k, 0) =
     Inr (example_state example_cm [0, 1, 2] 32 100 0) \<and>
   sa_loop calculate_score True 3 (calculate_weight_matrix 3) (Suc 0)
     (example_state example_cm [0, 1, 2] 32 100 0) =
     Some (Inr (example_state example_cm_swapped [0, 2, 1] 28 100 3)) \<and>
   sa_loop calculate_score True 3 (calculate_weight_matrix 3) (Suc 0)
     (example_state example_cm_swapped [0, 2, 1] 28 100 3) =
     Some (Inr (example_state example_cm_swapped [0, 2, 1] 28 100 6)) \<and>
   best_score (example_state example_cm_swapped [0, 2, 1] 28 100 6)
     \<le> best_score (example_state example_cm_swapped [0, 2, 1] 28 100 3) \<and>
   best_score (example_state example_cm_swapped [0, 2, 1] 28 100 3)
     \<le> best_score (example_state example_cm [0, 1, 2] 32 100 0)"
proof -
  have l2: "sa_loop calculate_score True 3 (calculate_weight_matrix 3) (Suc 0)
     (example_state example_cm_swapped [0, 2, 1] 28 100 3) =
     Some (Inr (example_state example_cm_swapped [0, 2, 1] 28 100 6))"
    by (simp add: example_step_2)
  show ?thesis
    using deterministic_best_score_never_increases
      [of calculate_score 3 "calculate_weight_matrix 3"
        "example_state example_cm [0, 1, 2] 32 100 0"
        "example_state example_cm_swapped [0, 2, 1] 28 100 3"
        example_cm None 100 "(\<lambda>k. k, 0)" "example_state example_cm [0, 1, 2] 32 100 0"
        "Suc 0" "example_state example_cm_swapped [0, 2, 1] 28 100 3"
        "Suc 0" "example_state example_cm_swapped [0, 2, 1] 28 100 6"]
      example_step_1 example_init example_loop_1 l2
    by blast
qed

text \<open>
  Claim C5. \<open>best_score \<le> current_score\<close> holds at all times, in both modes: the
  initial state has best and current equal, every iteration preserves the inequality, so
  it holds after any number of iterations; and an iteration either leaves best as it was
  or replaces it by the accepted candidate, whose score is strictly smaller.
\<close>

theorem best_score_le_current_score:
  "(sa_init cm_arg perm_arg score temp_arg r = Inr s0 \<longrightarrow>
      best_score s0 = current_score s0 \<and> best_cm s0 = current_cm s0 \<and>
      best_perm s0 = current_perm s0) \<and>
   (sa_step score deterministic n w s = Some (Inr s') \<and> best_score s \<le> current_score s \<longrightarrow>
      best_score s' \<le> current_score s') \<and>
   (sa_step score deterministic n w s = Some (Inr s') \<longrightarrow>
      (best_score s' = best_score s \<and> best_cm s' = best_cm s \<and> best_perm s' = best_perm s) \<or>
      (best_score s' < best_score s \<and> best_score s' = current_score s' \<and>
       best_cm s' = current_cm s' \<and> best_perm s' = current_perm s')) \<and>
   (sa_init cm_arg perm_arg score temp_arg r = Inr s0 \<and>
    sa_loop score deterministic n w k s0 = Some (Inr s1) \<longrightarrow>
      best_score s1 \<le> current_score s1)"
proof (intro conjI impI)
  assume "sa_init cm_arg perm_arg score temp_arg r = Inr s0"
  from sa_init_state(1-3) [OF this]
  show "best_score s0 = current_score s0" "best_cm s0 = current_cm s0"
    "best_perm s0 = current_perm s0" .
next
  assume "sa_step score deterministic n w s = Some (Inr s') \<and> best_score s \<le> current_score s"
  then show "best_score s' \<le> current_score s'"
    using sa_step_invariant by blast
next
  assume "sa_step score deterministic n w s = Some (Inr s')"
  then show "(best_score s' = best_score s \<and> best_cm s' = best_cm s \<and> best_perm s' = best_perm s) \<or>
      (best_score s' < best_score s \<and> best_score s' = current_score s' \<and>
       best_cm s' = current_cm s' \<and> best_perm s' = current_perm s')"
    by (rule sa_step_best_replaced)
next
  assume a: "sa_init cm_arg perm_arg score temp_arg r = Inr s0 \<and>
    sa_loop score deterministic n w k s0 = Some (Inr s1)"
  then have "best_score s0 \<le> current_score s0"
    using sa_init_state(1) [of cm_arg perm_arg score temp_arg r s0] by simp
  with a show "best_score s1 \<le> current_score s1"
    using sa_loop_invariant by blast
qed

theorem best_score_le_current_score_witness:
  "sa_init example_cm None calculate_score 100 (\<lambda>k. k, 0) =
     Inr (example_state example_cm [0, 1, 2] 32 100 0) \<and>
   sa_step calculate_score False 3 (calculate_weight_matrix 3)
     (example_state example_cm [0, 1, 2] 32 100 0) =
     Some (Inr (example_state example_cm_swapped [0, 2, 1] 28 99 4)) \<and>
   best_score (example_state example_cm [0, 1, 2] 32 100 0)
     \<le> current_score (example_state example_cm [0, 1, 2] 32 100 0) \<and>
   sa_loop calculate_score False 3 (calculate_weight_matrix 3) (Suc 0)
     (example_state example_cm [0, 1, 2] 32 100 0) =
     Some (Inr (example_state example_cm_swapped [0, 2, 1] 28 99 4)) \<and>
   best_score (example_state example_cm_swapped [0, 2, 1] 28 99 4)
     \<le> current_score (example_state example_cm_swapped [0, 2, 1] 28 99 4) \<and>
   best_score (example_state example_cm_swapped [0, 2, 1] 28 99 4)
     < best_score (example_state example_cm [0, 1, 2] 32 100 0)"
proof -
  have b: "best_score (example_state example_cm [0, 1, 2] 32 100 0)
     \<le> current_score (example_state example_cm [0, 1, 2] 32 100 0)"
    by simp
  have lt: "best_score (example_state example_cm_swapped [0, 2, 1] 28 99 4)
     < best_score (example_state example_cm [0, 1, 2] 32 100 0)"
    by simp
  show ?thesis
    using best_score_le_current_score
      [of example_cm None calculate_score 100 "(\<lambda>k. k, 0)"
        "example_state example_cm [0, 1, 2] 32 100 0" False 3 "calculate_weight_matrix 3"
        "example_state example_cm [0, 1, 2] 32 100 0"
        "example_state example_cm_swapped [0, 2, 1] 28 99 4" "Suc 0"
        "example_state example_cm_swapped [0, 2, 1] 28 99 4"]
      example_init example_step_random example_loop_random b lt
    by blast
qed



section \<open>Matrix and permutation in lock-step\<close>

text \<open>
  The entries of a permuted square matrix: \<open>cm[perm[a]][perm[b]]\<close> at position \<open>(a, b)\<close>.
\<close>

lemma norm_index_less: "norm_index len k \<noteq> None \<Longrightarrow> the (norm_index len k) < len"
  by (auto simp: norm_index_def split: if_splits)

lemma norm_indices_Some:
  assumes "norm_indices len ks = Some ps"
  shows "ps = map (\<lambda>k. the (norm_index len k)) ks \<and> list_all (\<lambda>p. p < len) ps"
proof -
  from assms have v: "list_all (\<lambda>k. norm_index len k \<noteq> None) ks"
    and ps: "ps = map (\<lambda>k. the (norm_index len k)) ks"
    by (auto simp: norm_indices_def split: if_splits)
  from v have "list_all (\<lambda>p. p < len) (map (\<lambda>k. the (norm_index len k)) ks)"
    by (auto simp: list_all_iff intro: norm_index_less)
  with ps show ?thesis by simp
qed

lemma norm_indices_subset:
  "norm_indices len ks \<noteq> None \<Longrightarrow> set ks' \<subseteq> set ks \<Longrightarrow> norm_indices len ks' \<noteq> None"
  by (auto simp: norm_indices_def list_all_iff split: if_splits)

lemma ncols_map_rows: "ncols (map (\<lambda>a. map (f a) ys) xs) = (if xs = [] then 0 else length ys)"
  by (cases xs) (simp_all add: ncols_def)

lemma transpose_m_map:
  assumes "xs \<noteq> []"
  shows "transpose_m (map (\<lambda>a. map (f a) ys) xs) = map (\<lambda>b. map (\<lambda>a. f a b) xs) ys"
proof -
  have "transpose_m (map (\<lambda>a. map (f a) ys) xs) =
      map (\<lambda>j. map (\<lambda>a. f a (ys ! j)) xs) [0..<length ys]"
    using assms by (simp add: transpose_m_def ncols_map_rows comp_def)
  also have "\<dots> = map (\<lambda>b. map (\<lambda>a. f a b) xs) (map ((!) ys) [0..<length ys])"
    by (simp add: comp_def)
  finally show ?thesis
    by (simp add: map_nth)
qed

lemma square_rows:
  assumes "is_square n cm"
  shows "cm = map (\<lambda>i. map (\<lambda>j. cm ! i ! j) [0..<n]) [0..<n]"
proof (rule nth_equalityI)
  show "length cm = length (map (\<lambda>i. map (\<lambda>j. cm ! i ! j) [0..<n]) [0..<n])"
    using assms by (simp add: is_square_def)
next
  fix i assume "i < length cm"
  with assms have i: "i < n" and len: "length (cm ! i) = n"
    by (auto simp: is_square_def list_all_length)
  have "cm ! i = map (\<lambda>j. cm ! i ! j) [0..<n]"
    using len by (intro nth_equalityI) simp_all
  with i show "cm ! i = map (\<lambda>i. map (\<lambda>j. cm ! i ! j) [0..<n]) [0..<n] ! i"
    by simp
qed

lemma apply_permutation_square:
  assumes "is_square n cm"
  shows "apply_permutation cm perm =
     (if list_all (\<lambda>k. norm_index n k \<noteq> None) perm
      then Inr (map (\<lambda>a. map (\<lambda>b. cm ! the (norm_index n a) ! the (norm_index n b)) perm) perm)
      else Inl IndexError)"
proof (cases "list_all (\<lambda>k. norm_index n k \<noteq> None) perm")
  case False
  then show ?thesis
    using assms by (simp add: apply_permutation_def norm_indices_def is_square_def)
next
  case valid: True
  have len: "length cm = n"
    using assms by (simp add: is_square_def)
  show ?thesis
  proof (cases "perm = []")
    case True
    then show ?thesis
      by (simp add: apply_permutation_def norm_indices_def fancy_get_def transpose_m_def ncols_def)
  next
    case False
    let ?ix = "\<lambda>k. the (norm_index n k)"
    have ix: "\<And>k. k \<in> set perm \<Longrightarrow> ?ix k < n"
      using valid by (auto simp: list_all_iff norm_index_def split: if_splits)
    have rows: "fancy_get cm (map ?ix perm) = map (\<lambda>a. map (\<lambda>j. cm ! ?ix a ! j) [0..<n]) perm"
    proof -
      have "\<And>a. a \<in> set perm \<Longrightarrow> cm ! ?ix a = map (\<lambda>j. cm ! ?ix a ! j) [0..<n]"
      proof -
        fix a assume "a \<in> set perm"
        then have "?ix a < n" by (rule ix)
        then have "cm ! ?ix a = map (\<lambda>i. map (\<lambda>j. cm ! i ! j) [0..<n]) [0..<n] ! ?ix a"
          using square_rows [OF assms] by simp
        also have "\<dots> = map (\<lambda>j. cm ! ?ix a ! j) [0..<n]"
          using \<open>?ix a < n\<close> by simp
        finally show "cm ! ?ix a = map (\<lambda>j. cm ! ?ix a ! j) [0..<n]" .
      qed
      then show ?thesis
        by (simp add: fancy_get_def comp_def cong: map_cong)
    qed
    have t: "transpose_m (fancy_get cm (map ?ix perm)) =
        map (\<lambda>j. map (\<lambda>a. cm ! ?ix a ! j) perm) [0..<n]"
      unfolding rows using False by (rule transpose_m_map)
    have cols: "fancy_get (map (\<lambda>j. map (\<lambda>a. cm ! ?ix a ! j) perm) [0..<n]) (map ?ix perm) =
        map (\<lambda>b. map (\<lambda>a. cm ! ?ix a ! ?ix b) perm) perm"
      using ix by (simp add: fancy_get_def comp_def cong: map_cong)
    have "apply_permutation cm perm =
        Inr (transpose_m (map (\<lambda>b. map (\<lambda>a. cm ! ?ix a ! ?ix b) perm) perm))"
      using valid by (simp add: apply_permutation_def norm_indices_def len t cols Let_def)
    also have "transpose_m (map (\<lambda>b. map (\<lambda>a. cm ! ?ix a ! ?ix b) perm) perm) =
        map (\<lambda>a. map (\<lambda>b. cm ! ?ix a ! ?ix b) perm) perm"
      using False by (rule transpose_m_map)
    finally show ?thesis
      using valid by simp
  qed
qed

text \<open>
  Both transforms rearrange positions, so they commute with any map over the entries.
\<close>

lemma swap_update_map:
  "i < length xs \<Longrightarrow> j < length xs \<Longrightarrow>
   (map g xs)[i := map g xs ! j, j := map g xs ! i] = map g (xs[i := xs ! j, j := xs ! i])"
  by (simp add: map_update)

lemma fancy_get_map:
  "list_all (\<lambda>p. p < length xs) ps \<Longrightarrow> fancy_get (map g xs) ps = map g (fancy_get xs ps)"
  by (simp add: fancy_get_def list_all_iff)

lemma fancy_set_map:
  "fancy_set (map g xs) ps (map g vs) = map g (fancy_set xs ps vs)"
proof -
  have "fold (\<lambda>pv acc. acc[fst pv := snd pv]) (map (\<lambda>pv. (fst pv, g (snd pv))) pvs) (map g xs) =
      map g (fold (\<lambda>pv acc. acc[fst pv := snd pv]) pvs xs)" for pvs
    by (induction pvs arbitrary: xs) (simp_all add: map_update [symmetric] del: map_update)
  moreover have "zip ps (map g vs) = map (\<lambda>pv. (fst pv, g (snd pv))) (zip ps vs)"
    by (simp add: zip_map2 case_prod_beta)
  ultimately show ?thesis
    by (simp add: fancy_set_def)
qed

lemma fancy_set_length: "length (fancy_set xs ps vs) = length xs"
proof -
  have "length (fold (\<lambda>pv acc. acc[fst pv := snd pv]) pvs xs) = length xs" for pvs
    by (induction pvs arbitrary: xs) simp_all
  then show ?thesis by (simp add: fancy_set_def)
qed

lemma fancy_set_subset: "set (fancy_set xs ps vs) \<subseteq> set xs \<union> set vs"
proof -
  have "set (fold (\<lambda>pv acc. acc[fst pv := snd pv]) pvs xs) \<subseteq> set xs \<union> snd ` set pvs" for pvs
  proof (induction pvs arbitrary: xs)
    case Nil
    then show ?case by simp
  next
    case (Cons pv pvs)
    have "set (xs[fst pv := snd pv]) \<subseteq> insert (snd pv) (set xs)"
      by (rule set_update_subset_insert)
    with Cons.IH [of "xs[fst pv := snd pv]"] show ?case
      by auto
  qed
  moreover have "snd ` set (zip ps vs) \<subseteq> set vs"
    by (auto dest: set_zip_rightD)
  ultimately show ?thesis
    unfolding fancy_set_def by blast
qed

lemma reindex_map:
  assumes "reindex xs p_old pn = Some xs'"
  shows "reindex (map g xs) p_old pn = Some (map g xs')"
proof -
  from assms obtain idx_new idx_old where
    n: "norm_indices (length xs) pn = Some idx_new" and
    d: "norm_indices (length xs) p_old = Some idx_old" and
    r: "xs' = fancy_set xs idx_old (fancy_get xs idx_new)"
    by (auto simp: reindex_def split: option.splits)
  from norm_indices_Some [OF n] have "list_all (\<lambda>p. p < length xs) idx_new"
    by (rule conjunct2)
  then show ?thesis
    by (simp add: reindex_def n d r fancy_get_map fancy_set_map)
qed

lemma reindex_subset:
  assumes "reindex xs p_old pn = Some xs'"
  shows "set xs' \<subseteq> set xs \<and> length xs' = length xs"
proof -
  from assms obtain idx_new idx_old where
    n: "norm_indices (length xs) pn = Some idx_new" and
    r: "xs' = fancy_set xs idx_old (fancy_get xs idx_new)"
    by (auto simp: reindex_def split: option.splits)
  from norm_indices_Some [OF n] have "set (fancy_get xs idx_new) \<subseteq> set xs"
    by (auto simp: fancy_get_def list_all_iff)
  with fancy_set_subset [of xs idx_old "fancy_get xs idx_new"] show ?thesis
    by (auto simp: r fancy_set_length)
qed

text \<open>
  A matrix whose rows and columns are both indexed by \<open>perm\<close>, entry \<open>f a b\<close> at the
  position of \<open>a\<close> and \<open>b\<close>: a transform of the permutation vector that returns is matched by
  the transform of the matrix.
\<close>

lemma swap_lock_step:
  assumes "swap_1d perm i j = Returned perm'"
  shows "swap (map (\<lambda>a. map (f a) perm) perm) i j = Returned (map (\<lambda>a. map (f a) perm') perm') \<and>
         set perm' \<subseteq> set perm"
proof -
  from assms obtain qi qj where
    qi: "norm_index (length perm) i = Some qi" and qj: "norm_index (length perm) j = Some qj" and
    p': "perm' = perm[qi := perm ! qj, qj := perm ! qi]"
    by (auto simp: swap_1d_def split: option.splits)
  from qi qj have lt: "qi < length perm" "qj < length perm"
    using norm_index_less [of "length perm" i] norm_index_less [of "length perm" j] by simp_all
  then have ne: "perm \<noteq> []"
    by auto
  let ?M = "map (\<lambda>a. map (f a) perm) perm"
  have nc: "ncols ?M = length perm"
    using ne by (simp add: ncols_map_rows)
  have cols: "map (\<lambda>row. row[qi := row ! qj, qj := row ! qi]) ?M = map (\<lambda>a. map (f a) perm') perm"
    using lt by (simp add: p' map_update comp_def)
  have rows: "(map (\<lambda>a. map (f a) perm') perm)
        [qi := map (\<lambda>a. map (f a) perm') perm ! qj, qj := map (\<lambda>a. map (f a) perm') perm ! qi] =
      map (\<lambda>a. map (f a) perm') perm'"
    unfolding p' using lt by (rule swap_update_map)
  have "swap ?M i j = Returned ((map (\<lambda>a. map (f a) perm') perm)
        [qi := map (\<lambda>a. map (f a) perm') perm ! qj, qj := map (\<lambda>a. map (f a) perm') perm ! qi])"
    by (simp only: swap_def nc qi qj option.case Let_def cols length_map)
  then have "swap ?M i j = Returned (map (\<lambda>a. map (f a) perm') perm')"
    by (simp only: rows)
  moreover have "set perm' \<subseteq> set perm"
  proof -
    have s1: "set (perm[qi := perm ! qj]) \<subseteq> insert (perm ! qj) (set perm)"
      by (rule set_update_subset_insert)
    have s2: "set (perm[qi := perm ! qj, qj := perm ! qi])
        \<subseteq> insert (perm ! qi) (set (perm[qi := perm ! qj]))"
      by (rule set_update_subset_insert)
    have "perm ! qi \<in> set perm" "perm ! qj \<in> set perm"
      using lt by simp_all
    with s1 s2 show ?thesis
      unfolding p' by blast
  qed
  ultimately show ?thesis
    by simp
qed

lemma move_lock_step:
  assumes "move_1d perm from_start from_end insert_pos = Returned perm'"
  shows "move (map (\<lambda>a. map (f a) perm) perm) from_start from_end insert_pos =
           Returned (map (\<lambda>a. map (f a) perm') perm') \<and>
         set perm' \<subseteq> set perm"
proof -
  let ?pn = "p_new from_start from_end insert_pos"
  from assms have out: "insert_pos < from_start \<or> from_end < insert_pos" and
    re: "reindex perm (sort ?pn) ?pn = Some perm'"
    by (auto simp: move_1d_def Let_def split: if_splits option.splits)
  from re obtain idx_new idx_old where
    n: "norm_indices (length perm) ?pn = Some idx_new" and
    d: "norm_indices (length perm) (sort ?pn) = Some idx_old" and
    r: "perm' = fancy_set perm idx_old (fancy_get perm idx_new)"
    by (auto simp: reindex_def split: option.splits)
  have "?pn \<noteq> []"
    using out by (auto simp: p_new_def upto.simps)
  with n have ne: "perm \<noteq> []"
    by (cases ?pn) (auto simp: norm_indices_def norm_index_def split: if_splits)
  let ?M = "map (\<lambda>a. map (f a) perm) perm"
  have nc: "ncols ?M = length perm"
    using ne by (simp add: ncols_map_rows)
  have row: "fancy_set (map (f a) perm) idx_old (fancy_get (map (f a) perm) idx_new) =
      map (f a) perm'" for a
    using reindex_map [OF re, of "f a"] by (simp add: reindex_def n d)
  have cols: "reindex_cols ?M (sort ?pn) ?pn = Some (map (\<lambda>a. map (f a) perm') perm)"
    by (simp add: reindex_cols_def nc n d row comp_def)
  have rows: "reindex (map (\<lambda>a. map (f a) perm') perm) (sort ?pn) ?pn =
      Some (map (\<lambda>a. map (f a) perm') perm')"
    using re by (rule reindex_map)
  have "move ?M from_start from_end insert_pos = Returned (map (\<lambda>a. map (f a) perm') perm')"
    using out by (simp add: move_def Let_def cols rows)
  with reindex_subset [OF re] show ?thesis
    by simp
qed

lemma apply_move_lock_step:
  assumes "is_square n cm" "apply_permutation cm perm = Inr m"
    and "apply_move mv perm m = Inr (perm', m')"
  shows "apply_permutation cm perm' = Inr m'"
proof -
  let ?f = "\<lambda>a b. cm ! the (norm_index n a) ! the (norm_index n b)"
  from assms(2) have valid: "list_all (\<lambda>k. norm_index n k \<noteq> None) perm"
    and m: "m = map (\<lambda>a. map (?f a) perm) perm"
    by (auto simp: apply_permutation_square [OF assms(1)] split: if_splits)
  have "m' = map (\<lambda>a. map (?f a) perm') perm' \<and> set perm' \<subseteq> set perm"
  proof (cases mv)
    case (SwapParams i j)
    with assms(3) obtain p1 where p1: "swap_1d perm i j = Returned p1"
      by (auto simp: apply_move_def split: outcome.splits)
    from swap_lock_step [OF p1, of ?f] assms(3) SwapParams p1 show ?thesis
      by (auto simp: apply_move_def m)
  next
    case (BlockParams from_start from_end insert_pos)
    with assms(3) obtain p1 where p1: "move_1d perm from_start from_end insert_pos = Returned p1"
      by (auto simp: apply_move_def split: outcome.splits)
    from move_lock_step [OF p1, of ?f] assms(3) BlockParams p1 show ?thesis
      by (auto simp: apply_move_def m)
  qed
  moreover from this valid have "list_all (\<lambda>k. norm_index n k \<noteq> None) perm'"
    by (auto simp: list_all_iff)
  ultimately show ?thesis
    by (simp add: apply_permutation_square [OF assms(1)])
qed

lemma generate_permutation_lock_step:
  assumes "is_square n cm" "apply_permutation cm perm = Inr m"
    and "generate_permutation k perm m r = Some (Inr ((perm', make_swap), m', r'))"
  shows "apply_permutation cm perm' = Inr m'"
proof -
  from assms(3) obtain mv where "apply_move mv perm m = Inr (perm', m')"
    by (auto simp: generate_permutation_def split: option.splits sum.splits)
  with assms(1,2) show ?thesis
    by (rule apply_move_lock_step)
qed

lemma sa_step_lock_step:
  assumes "is_square n cm"
    and "sa_step score deterministic k w s = Some (Inr s')"
    and "apply_permutation cm (current_perm s) = Inr (current_cm s)"
    and "apply_permutation cm (best_perm s) = Inr (best_cm s)"
  shows "apply_permutation cm (current_perm s') = Inr (current_cm s') \<and>
         apply_permutation cm (best_perm s') = Inr (best_cm s')"
  using assms(2)
proof (rule sa_step_cases)
  fix perm make_swap tmp_cm r1 tmp_score chance t r2
  assume g: "generate_permutation k (current_perm s) (current_cm s) (gen s) =
       Some (Inr ((perm, make_swap), tmp_cm, r1))"
    and s': "s' = (if chance \<le> hot_prob_thresh tmp_score (current_score s) t
          then accept perm tmp_cm tmp_score (s\<lparr>temp := t, gen := r2\<rparr>)
          else s\<lparr>temp := t, gen := r2\<rparr>)"
  have "apply_permutation cm perm = Inr tmp_cm"
    using assms(1,3) g by (rule generate_permutation_lock_step)
  with assms(3,4) show ?thesis
    by (simp add: s' accept_simps)
qed

lemma sa_loop_lock_step:
  assumes "is_square n cm"
  shows "sa_loop score deterministic k w j s = Some (Inr s') \<Longrightarrow>
         apply_permutation cm (current_perm s) = Inr (current_cm s) \<Longrightarrow>
         apply_permutation cm (best_perm s) = Inr (best_cm s) \<Longrightarrow>
         apply_permutation cm (current_perm s') = Inr (current_cm s') \<and>
         apply_permutation cm (best_perm s') = Inr (best_cm s')"
proof (induction j arbitrary: s)
  case 0
  then show ?case by simp
next
  case (Suc j)
  from Suc.prems(1) obtain s1 where
    s1: "sa_step score deterministic k w s = Some (Inr s1)"
        "sa_loop score deterministic k w j s1 = Some (Inr s')"
    by (auto split: option.splits sum.splits)
  from sa_step_lock_step [OF assms s1(1) Suc.prems(2,3)] Suc.IH [OF s1(2)] show ?case
    by simp
qed

text \<open>
  Claim C1. For a square input matrix, the current and the best state both satisfy
  \<open>matrix = apply_permutation(input matrix, permutation)\<close> after the initialisation, at
  the end of every iteration that starts from such a state, hence after any number of
  iterations, and the returned matrix is \<^verbatim>\<open>apply_permutation\<close> of the input matrix and the
  returned permutation; for every initial permutation and every tape of random draws.
\<close>

theorem matrix_permutation_lock_step:
  assumes "is_square n cm_arg"
  shows "(sa_init cm_arg perm_arg score temp_arg r = Inr s0 \<longrightarrow>
            apply_permutation cm_arg (current_perm s0) = Inr (current_cm s0) \<and>
            apply_permutation cm_arg (best_perm s0) = Inr (best_cm s0)) \<and>
         (sa_step score deterministic k w s = Some (Inr s') \<and>
          apply_permutation cm_arg (current_perm s) = Inr (current_cm s) \<and>
          apply_permutation cm_arg (best_perm s) = Inr (best_cm s) \<longrightarrow>
            apply_permutation cm_arg (current_perm s') = Inr (current_cm s') \<and>
            apply_permutation cm_arg (best_perm s') = Inr (best_cm s')) \<and>
         (sa_init cm_arg perm_arg score temp_arg r = Inr s0 \<and>
          sa_loop score deterministic k w j s0 = Some (Inr s1) \<longrightarrow>
            apply_permutation cm_arg (current_perm s1) = Inr (current_cm s1) \<and>
            apply_permutation cm_arg (best_perm s1) = Inr (best_cm s1)) \<and>
         (simulated_annealing cm_arg perm_arg score steps temp_arg cooling_factor deterministic r =
            Some (Inr (result_cm, result_perm)) \<longrightarrow>
            apply_permutation cm_arg result_perm = Inr result_cm)"
proof -
  have init: "apply_permutation cm_arg (current_perm s) = Inr (current_cm s) \<and>
      apply_permutation cm_arg (best_perm s) = Inr (best_cm s)"
    if "sa_init cm_arg perm_arg score temp_arg r = Inr s" for s
    using sa_init_state(2,3,7) [OF that] by simp
  have step: "apply_permutation cm_arg (current_perm s') = Inr (current_cm s') \<and>
      apply_permutation cm_arg (best_perm s') = Inr (best_cm s')"
    if "sa_step score deterministic k w s = Some (Inr s') \<and>
        apply_permutation cm_arg (current_perm s) = Inr (current_cm s) \<and>
        apply_permutation cm_arg (best_perm s) = Inr (best_cm s)"
    using sa_step_lock_step [OF assms, of score deterministic k w s s'] that by blast
  have loop: "apply_permutation cm_arg (current_perm s1) = Inr (current_cm s1) \<and>
      apply_permutation cm_arg (best_perm s1) = Inr (best_cm s1)"
    if "sa_init cm_arg perm_arg score temp_arg r = Inr s0 \<and>
        sa_loop score deterministic k w j s0 = Some (Inr s1)"
    using sa_loop_lock_step [OF assms, of score deterministic k w j s0 s1] init [of s0] that
    by blast
  have result: "apply_permutation cm_arg result_perm = Inr result_cm"
    if "simulated_annealing cm_arg perm_arg score steps temp_arg cooling_factor deterministic r =
          Some (Inr (result_cm, result_perm))"
  proof -
    from that obtain s2 where
      run: "sa_run cm_arg perm_arg score steps temp_arg cooling_factor deterministic r =
              Some (Inr s2)"
      and res: "result_cm = best_cm s2" "result_perm = best_perm s2"
      by (auto simp: simulated_annealing_def split: option.splits sum.splits)
    from run show ?thesis
    proof (rule sa_run_cases)
      fix s
      assume i: "sa_init cm_arg perm_arg score temp_arg r = Inr s"
        and l: "sa_loop score deterministic (int (length cm_arg))
             (calculate_weight_matrix (int (length cm_arg))) (nat steps) s = Some (Inr s2)"
      from sa_loop_lock_step [OF assms l] init [OF i] show ?thesis
        by (simp add: res)
    qed
  qed
  from init step loop result show ?thesis
    by blast
qed

theorem matrix_permutation_lock_step_witness:
  "is_square 3 example_cm \<and>
   sa_init example_cm None calculate_score 100 (\<lambda>k. k, 0) =
     Inr (example_state example_cm [0, 1, 2] 32 100 0) \<and>
   apply_permutation example_cm [0, 1, 2] = Inr example_cm \<and>
   sa_step calculate_score True 3 (calculate_weight_matrix 3)
     (example_state example_cm [0, 1, 2] 32 100 0) =
     Some (Inr (example_state example_cm_swapped [0, 2, 1] 28 100 3)) \<and>
   sa_loop calculate_score True 3 (calculate_weight_matrix 3) (Suc 0)
     (example_state example_cm [0, 1, 2] 32 100 0) =
     Some (Inr (example_state example_cm_swapped [0, 2, 1] 28 100 3)) \<and>
   simulated_annealing example_cm None calculate_score 2 100 (99 / 100) True (\<lambda>k. k, 0) =
     Some (Inr (example_cm_swapped, [0, 2, 1])) \<and>
   apply_permutation example_cm [0, 2, 1] = Inr example_cm_swapped"
proof -
  have sq: "is_square 3 example_cm"
    by (simp add: is_square_def)
  have sa: "simulated_annealing example_cm None calculate_score 2 100 (99 / 100) True (\<lambda>k. k, 0) =
     Some (Inr (example_cm_swapped, [0, 2, 1]))"
    by (simp add: simulated_annealing_def example_run)
  note t = matrix_permutation_lock_step [OF sq, of None calculate_score 100 "(\<lambda>k. k, 0)"
      "example_state example_cm [0, 1, 2] 32 100 0" True 3 "calculate_weight_matrix 3"
      "example_state example_cm [0, 1, 2] 32 100 0"
      "example_state example_cm_swapped [0, 2, 1] 28 100 3" "Suc 0"
      "example_state example_cm_swapped [0, 2, 1] 28 100 3" 2 "99 / 100"
      example_cm_swapped "[0, 2, 1]"]
  have i: "apply_permutation example_cm [0, 1, 2] = Inr example_cm"
    using t example_init by simp
  have f: "apply_permutation example_cm [0, 2, 1] = Inr example_cm_swapped"
    using t sa by blast
  show ?thesis
    using sq example_init example_step_1 example_loop_1 sa i f by simp
qed

section \<open>Termination\<close>

text \<open>
  With a single class, \<^verbatim>\<open>random.randint(0, 0)\<close> is always \<open>0\<close>, so the loop
  \<^verbatim>\<open>while j == i\<close> never draws a \<open>j\<close> different from \<open>i = 0\<close>.
\<close>

lemma randint_0_0: "randint 0 0 r = Inr (0, (fst r, Suc (snd r)))"
  by (simp add: randint_def)

lemma resample_j_single_class: "resample_j 1 0 0 r = None"
proof (cases "resample_j 1 0 0 r")
  case None
  then show ?thesis .
next
  case (Some y)
  have "(1::int) = 1 \<and> (0::int) = 0 \<and> (0::int) = 0 \<longrightarrow> False"
  proof (rule resample_j.raw_induct
      [where P = "\<lambda>n i j r y. n = 1 \<and> i = 0 \<and> j = 0 \<longrightarrow> False", OF _ Some])
    fix f n i j r y
    assume IH: "\<And>n i j r y. f n i j r = Some y \<Longrightarrow> n = 1 \<and> i = 0 \<and> j = 0 \<longrightarrow> False"
      and eq: "(if j = i
          then case randint 0 (n - 1) r of Inl e \<Rightarrow> Some (Inl e)
               | Inr jr \<Rightarrow> f n i (fst jr) (snd jr)
          else Some (Inr (j, r))) = Some y"
    show "n = 1 \<and> i = 0 \<and> j = 0 \<longrightarrow> False"
    proof
      assume a: "n = 1 \<and> i = 0 \<and> j = 0"
      with eq have "f 1 0 0 (fst r, Suc (snd r)) = Some y"
        by (simp add: randint_0_0)
      from IH [OF this] show False
        by simp
    qed
  qed
  then show ?thesis
    by simp
qed

lemma draw_move_single_class: "draw_move 1 r = None"
  by (simp add: draw_move_def Let_def randint_0_0 resample_j_single_class)

lemma sa_init_single_class:
  "sa_init [[x]] None calculate_score temp_arg r =
     Inr \<lparr>current_cm = [[x]], current_perm = [0], current_score = 0,
          best_cm = [[x]], best_perm = [0], best_score = 0, temp = temp_arg, gen = r\<rparr>"
  by (simp add: sa_init_def apply_permutation_def transpose_m_def norm_indices_def norm_index_def
      ncols_def fancy_get_def score_eval Let_def)

text \<open>
  Claim C2, at a \<open>1 \<times> 1\<close> matrix: the first iteration never ends, whatever the entry, the
  mode and the tape of random draws, so the call does not return.
\<close>

theorem simulated_annealing_single_class_diverges:
  "simulated_annealing [[x]] None calculate_score 1 100 (99 / 100) deterministic r = None"
proof -
  have "sa_step calculate_score deterministic 1 w s = None" for w s
    by (simp add: sa_step_def generate_permutation_def draw_move_single_class)
  then show ?thesis
    by (simp add: simulated_annealing_def sa_run_def sa_init_single_class)
qed

text \<open>
  With at least two classes the resampling loops end as soon as the tape offers an
  acceptable draw.
\<close>

lemma randint_zero_based:
  "0 < N \<Longrightarrow> randint 0 (int N - 1) (tape, pos) = Inr (int (tape pos mod N), (tape, Suc pos))"
  by (simp add: randint_def)

lemma resample_j_fair:
  assumes "0 < N"
  shows "pos \<le> q \<Longrightarrow> int (tape q mod N) \<noteq> i \<Longrightarrow>
         \<exists>j pos'. resample_j (int N) i i (tape, pos) = Some (Inr (j, (tape, pos'))) \<and>
                   j \<noteq> i \<and> 0 \<le> j \<and> j < int N"
proof (induction "q - pos" arbitrary: pos)
  case 0
  then have q: "q = pos" by simp
  let ?j = "int (tape pos mod N)"
  have "resample_j (int N) i i (tape, pos) = resample_j (int N) i ?j (tape, Suc pos)"
    by (subst resample_j.simps) (simp add: randint_zero_based [OF assms])
  also have "\<dots> = Some (Inr (?j, (tape, Suc pos)))"
    using 0 q by (subst resample_j.simps) simp
  finally show ?case
    using 0 q assms by auto
next
  case (Suc d)
  let ?j = "int (tape pos mod N)"
  have first: "resample_j (int N) i i (tape, pos) = resample_j (int N) i ?j (tape, Suc pos)"
    by (subst resample_j.simps) (simp add: randint_zero_based [OF assms])
  show ?case
  proof (cases "?j = i")
    case False
    have "resample_j (int N) i ?j (tape, Suc pos) = Some (Inr (?j, (tape, Suc pos)))"
      using False by (subst resample_j.simps) simp
    with first False assms show ?thesis
      by auto
  next
    case True
    from Suc.hyps(2) Suc.prems have "d = q - Suc pos" "Suc pos \<le> q"
      by simp_all
    from Suc.hyps(1) [OF this Suc.prems(2)] first True show ?thesis
      by simp
  qed
qed

lemma resample_insert_pos_fair:
  assumes "0 < N"
  shows "pos \<le> q \<Longrightarrow> int (tape q mod N) < from_start \<or> from_end < int (tape q mod N) \<Longrightarrow>
         from_start \<le> insert_pos \<Longrightarrow> insert_pos \<le> from_end \<Longrightarrow>
         \<exists>p pos'. resample_insert_pos (int N) from_start from_end insert_pos (tape, pos) =
                     Some (Inr (p, (tape, pos'))) \<and>
                   (p < from_start \<or> from_end < p) \<and> 0 \<le> p \<and> p < int N"
proof (induction "q - pos" arbitrary: pos insert_pos)
  case 0
  then have q: "q = pos" by simp
  let ?p = "int (tape pos mod N)"
  have "resample_insert_pos (int N) from_start from_end insert_pos (tape, pos) =
      resample_insert_pos (int N) from_start from_end ?p (tape, Suc pos)"
    using 0 by (subst resample_insert_pos.simps) (simp add: randint_zero_based [OF assms])
  also have "\<dots> = Some (Inr (?p, (tape, Suc pos)))"
    using 0 q by (subst resample_insert_pos.simps) auto
  finally show ?case
    using 0 q assms by auto
next
  case (Suc d)
  let ?p = "int (tape pos mod N)"
  have first: "resample_insert_pos (int N) from_start from_end insert_pos (tape, pos) =
      resample_insert_pos (int N) from_start from_end ?p (tape, Suc pos)"
    using Suc.prems by (subst resample_insert_pos.simps) (simp add: randint_zero_based [OF assms])
  show ?case
  proof (cases "?p < from_start \<or> from_end < ?p")
    case True
    have "resample_insert_pos (int N) from_start from_end ?p (tape, Suc pos) =
        Some (Inr (?p, (tape, Suc pos)))"
      using True by (subst resample_insert_pos.simps) auto
    with first True assms show ?thesis
      by auto
  next
    case False
    then have inside: "from_start \<le> ?p" "?p \<le> from_end"
      by simp_all
    from Suc.hyps(2) Suc.prems have "d = q - Suc pos" "Suc pos \<le> q"
      by simp_all
    from Suc.hyps(1) [OF this Suc.prems(2) inside] first show ?thesis
      by simp
  qed
qed

lemma draw_move_unfold_swap:
  assumes "n < 3 \<or> fst (random_random r) < 1 / 2"
  shows "draw_move n r =
     (case randint 0 (n - 1) (snd (random_random r)) of Inl e \<Rightarrow> Some (Inl e) | Inr ir \<Rightarrow>
     (case resample_j n (fst ir) (fst ir) (snd ir) of
        None \<Rightarrow> None
      | Some (Inl e) \<Rightarrow> Some (Inl e)
      | Some (Inr jr) \<Rightarrow> Some (Inr (True, SwapParams (fst ir) (fst jr), snd jr))))"
proof -
  from assms have "(if n < 3 then True else fst (random_random r) < 1 / 2) = True"
    by auto
  then show ?thesis
    unfolding draw_move_def Let_def by (simp only: if_True)
qed

lemma draw_move_unfold_block:
  assumes "\<not> (n < 3 \<or> fst (random_random r) < 1 / 2)"
  shows "draw_move n r =
     (case resample_block n n None (snd (random_random r)) of
        None \<Rightarrow> None
      | Some (Inl e) \<Rightarrow> Some (Inl e)
      | Some (Inr (None, r1)) \<Rightarrow> Some (Inl UnboundLocalError)
      | Some (Inr (Some (from_start, from_end), r1)) \<Rightarrow>
     (case resample_insert_pos n from_start from_end from_start r1 of
        None \<Rightarrow> None
      | Some (Inl e) \<Rightarrow> Some (Inl e)
      | Some (Inr pr) \<Rightarrow> Some (Inr (False, BlockParams from_start from_end (fst pr), snd pr))))"
proof -
  from assms have "(if n < 3 then True else fst (random_random r) < 1 / 2) = False"
    by auto
  then show ?thesis
    unfolding draw_move_def Let_def by (simp only: if_False)
qed

lemma draw_move_fair:
  assumes N: "2 \<le> N" and fair: "\<forall>pos v. v < N \<longrightarrow> (\<exists>q\<ge>pos. tape q mod N = v)"
  shows "\<exists>make_swap mv pos'.
           draw_move (int N) (tape, pos) = Some (Inr (make_swap, mv, (tape, pos'))) \<and>
           (case mv of
              SwapParams i j \<Rightarrow> 0 \<le> i \<and> i < int N \<and> 0 \<le> j \<and> j < int N
            | BlockParams from_start from_end insert_pos \<Rightarrow>
                0 \<le> from_start \<and> from_start < from_end \<and> from_end \<le> int N - 2 \<and>
                (insert_pos < from_start \<or> from_end < insert_pos) \<and>
                0 \<le> insert_pos \<and> insert_pos < int N)"
proof -
  have N0: "0 < N" using N by simp
  have rr: "snd (random_random (tape, pos)) = (tape, Suc pos)"
    by (simp add: random_random_def)
  show ?thesis
  proof (cases "int N < 3 \<or> fst (random_random (tape, pos)) < 1 / 2")
    case True
    let ?i = "int (tape (Suc pos) mod N)"
    have i: "randint 0 (int N - 1) (tape, Suc pos) = Inr (?i, (tape, Suc (Suc pos)))"
      by (rule randint_zero_based [OF N0])
    let ?v = "if tape (Suc pos) mod N = 0 then 1 else (0::nat)"
    have "?v < N"
      using N by simp
    with fair obtain q where q: "Suc (Suc pos) \<le> q" "tape q mod N = ?v"
      by blast
    have ne: "int (tape q mod N) \<noteq> ?i"
      unfolding q(2) by simp
    from resample_j_fair [of N "Suc (Suc pos)" q tape ?i, OF N0 q(1) ne] obtain j pos' where
      j: "resample_j (int N) ?i ?i (tape, Suc (Suc pos)) = Some (Inr (j, (tape, pos')))"
         "0 \<le> j" "j < int N"
      by blast
    have "draw_move (int N) (tape, pos) = Some (Inr (True, SwapParams ?i j, (tape, pos')))"
      by (simp add: draw_move_unfold_swap [OF True] rr i j)
    moreover have "0 \<le> ?i" "?i < int N"
      using N0 by simp_all
    ultimately show ?thesis
      using j(2,3) by auto
  next
    case False
    then have N3: "3 \<le> int N"
      by simp
    from resample_block_once [OF N3, of "(tape, Suc pos)"] obtain fs fe where
      b: "0 \<le> fs" "fs < fe" "fe \<le> int N - 2"
         "resample_block (int N) (int N) None (tape, Suc pos) =
            Some (Inr (Some (fs, fe), (tape, Suc (Suc (Suc pos)))))"
      by auto
    have "N - 1 < N" using N0 by simp
    with fair obtain q where q: "Suc (Suc (Suc pos)) \<le> q" "tape q mod N = N - 1"
      by blast
    have "fe < int (tape q mod N)"
      using q(2) b(3) N0 by (simp add: of_nat_diff)
    then have out: "int (tape q mod N) < fs \<or> fe < int (tape q mod N)"
      by simp
    from resample_insert_pos_fair [of N "Suc (Suc (Suc pos))" q tape fs fe fs, OF N0 q(1) out] b(2)
    obtain p pos' where
      p: "resample_insert_pos (int N) fs fe fs (tape, Suc (Suc (Suc pos))) = Some (Inr (p, (tape, pos')))"
         "p < fs \<or> fe < p" "0 \<le> p" "p < int N"
      by auto
    have "draw_move (int N) (tape, pos) = Some (Inr (False, BlockParams fs fe p, (tape, pos')))"
      by (simp add: draw_move_unfold_block [OF False] rr b p)
    then show ?thesis
      using b(1-3) p(2-4) by auto
  qed
qed

lemma norm_index_in_range: "0 \<le> k \<Longrightarrow> k < int len \<Longrightarrow> norm_index len k = Some (nat k)"
  by (simp add: norm_index_def)

lemma norm_indices_in_range:
  assumes "\<And>k. k \<in> set ks \<Longrightarrow> 0 \<le> k \<and> k < int len"
  shows "\<exists>ps. norm_indices len ks = Some ps"
  using assms by (auto simp: norm_indices_def list_all_iff norm_index_in_range)

lemma swap_1d_returns:
  assumes "0 \<le> i" "i < int (length perm)" "0 \<le> j" "j < int (length perm)"
  shows "\<exists>perm'. swap_1d perm i j = Returned perm' \<and> length perm' = length perm"
  using assms by (simp add: swap_1d_def norm_index_in_range)

lemma reindex_length: "reindex xs p_old pn = Some xs' \<Longrightarrow> length xs' = length xs"
  by (auto simp: reindex_def fancy_set_length split: option.splits)

lemma move_1d_returns:
  assumes "0 \<le> from_start" "from_start \<le> from_end" "from_end < int (length perm)"
    and "insert_pos < from_start \<or> from_end < insert_pos"
    and "0 \<le> insert_pos" "insert_pos < int (length perm)"
  shows "\<exists>perm'. move_1d perm from_start from_end insert_pos = Returned perm' \<and>
                 length perm' = length perm"
proof -
  let ?pn = "p_new from_start from_end insert_pos"
  have range: "0 \<le> k \<and> k < int (length perm)" if "k \<in> set ?pn" for k
    using that assms by (auto simp: p_new_def split: if_splits)
  then obtain idx_new where n: "norm_indices (length perm) ?pn = Some idx_new"
    using norm_indices_in_range [of ?pn "length perm"] by blast
  from range obtain idx_old where d: "norm_indices (length perm) (sort ?pn) = Some idx_old"
    using norm_indices_in_range [of "sort ?pn" "length perm"] by auto
  have "move_1d perm from_start from_end insert_pos =
      Returned (fancy_set perm idx_old (fancy_get perm idx_new))"
    using assms(4) by (simp add: move_1d_def reindex_def n d Let_def)
  then show ?thesis
    by (simp add: fancy_set_length)
qed

lemma apply_move_returns:
  assumes "case mv of
              SwapParams i j \<Rightarrow> 0 \<le> i \<and> i < int N \<and> 0 \<le> j \<and> j < int N
            | BlockParams from_start from_end insert_pos \<Rightarrow>
                0 \<le> from_start \<and> from_start < from_end \<and> from_end \<le> int N - 2 \<and>
                (insert_pos < from_start \<or> from_end < insert_pos) \<and>
                0 \<le> insert_pos \<and> insert_pos < int N"
    and "length perm = N"
  shows "\<exists>perm'. apply_move mv perm (map (\<lambda>a. map (f a) perm) perm) =
                   Inr (perm', map (\<lambda>a. map (f a) perm') perm') \<and>
                 length perm' = N \<and> set perm' \<subseteq> set perm"
proof (cases mv)
  case (SwapParams i j)
  with assms obtain perm' where
    p: "swap_1d perm i j = Returned perm'" "length perm' = N"
    using swap_1d_returns [of i perm j] by auto
  from swap_lock_step [OF p(1), of f] p SwapParams show ?thesis
    by (simp add: apply_move_def)
next
  case (BlockParams from_start from_end insert_pos)
  with assms obtain perm' where
    p: "move_1d perm from_start from_end insert_pos = Returned perm'" "length perm' = N"
    using move_1d_returns [of from_start from_end perm insert_pos] by auto
  from move_lock_step [OF p(1), of f] p BlockParams show ?thesis
    by (simp add: apply_move_def)
qed

lemma calculate_score_square:
  "length perm = N \<Longrightarrow>
   \<exists>sc. calculate_score (map (\<lambda>a. map (f a) perm) perm) (calculate_weight_matrix (int N)) = Inr sc"
  by (simp add: calculate_score_def same_shape_def weight_matrix_shape comp_def
      map_replicate_const)

text \<open>
  One iteration from a state whose matrix is the input matrix permuted by a valid
  permutation of full length, at a positive temperature: it ends in such a state again.
\<close>

lemma sa_step_returns:
  assumes N: "2 \<le> N" and fair: "\<forall>pos v. v < N \<longrightarrow> (\<exists>q\<ge>pos. tape q mod N = v)"
    and len: "length (current_perm s) = N"
    and valid: "list_all (\<lambda>k. norm_index N k \<noteq> None) (current_perm s)"
    and cm: "current_cm s = map (\<lambda>a. map (f a) (current_perm s)) (current_perm s)"
    and temp: "0 < temp s" and tape: "fst (gen s) = tape"
  shows "\<exists>s'. sa_step calculate_score deterministic (int N) (calculate_weight_matrix (int N)) s =
                Some (Inr s') \<and>
              length (current_perm s') = N \<and>
              list_all (\<lambda>k. norm_index N k \<noteq> None) (current_perm s') \<and>
              current_cm s' = map (\<lambda>a. map (f a) (current_perm s')) (current_perm s') \<and>
              0 < temp s' \<and> fst (gen s') = tape"
proof -
  have g: "gen s = (tape, snd (gen s))"
    using tape by (cases "gen s") simp
  from draw_move_fair [OF N fair, of "snd (gen s)"] obtain make_swap mv pos' where
    d: "draw_move (int N) (gen s) = Some (Inr (make_swap, mv, (tape, pos')))" and
    ok: "case mv of
              SwapParams i j \<Rightarrow> 0 \<le> i \<and> i < int N \<and> 0 \<le> j \<and> j < int N
            | BlockParams from_start from_end insert_pos \<Rightarrow>
                0 \<le> from_start \<and> from_start < from_end \<and> from_end \<le> int N - 2 \<and>
                (insert_pos < from_start \<or> from_end < insert_pos) \<and>
                0 \<le> insert_pos \<and> insert_pos < int N"
    by (subst (asm) g [symmetric]) blast
  from apply_move_returns [OF ok len, of f] obtain perm' where
    a: "apply_move mv (current_perm s) (current_cm s) =
          Inr (perm', map (\<lambda>a. map (f a) perm') perm')"
       "length perm' = N" "set perm' \<subseteq> set (current_perm s)"
    unfolding cm by blast
  have gp: "generate_permutation (int N) (current_perm s) (current_cm s) (gen s) =
      Some (Inr ((perm', make_swap), map (\<lambda>a. map (f a) perm') perm', (tape, pos')))"
    by (simp add: generate_permutation_def d a(1))
  from calculate_score_square [OF a(2), of f] obtain sc where
    sc: "calculate_score (map (\<lambda>a. map (f a) perm') perm') (calculate_weight_matrix (int N)) =
           Inr sc"
    by blast
  obtain chance t r2 where
    dc: "draw_chance deterministic (temp s) (tape, pos') = (chance, t, r2)"
    by (cases "draw_chance deterministic (temp s) (tape, pos')") auto
  then have t: "0 < t" "fst r2 = tape"
    using temp by (auto simp: draw_chance_def random_random_def Let_def split: if_splits)
  have valid': "list_all (\<lambda>k. norm_index N k \<noteq> None) perm'"
    using valid a(3) by (auto simp: list_all_iff)
  let ?s1 = "s\<lparr>temp := t, gen := r2\<rparr>"
  let ?s' = "if chance \<le> hot_prob_thresh sc (current_score s) t
             then accept perm' (map (\<lambda>a. map (f a) perm') perm') sc ?s1 else ?s1"
  have "sa_step calculate_score deterministic (int N) (calculate_weight_matrix (int N)) s =
      Some (Inr ?s')"
    using t(1) by (simp add: sa_step_def gp sc dc Let_def)
  moreover have "length (current_perm ?s') = N"
    "list_all (\<lambda>k. norm_index N k \<noteq> None) (current_perm ?s')"
    "current_cm ?s' = map (\<lambda>a. map (f a) (current_perm ?s')) (current_perm ?s')"
    "0 < temp ?s'" "fst (gen ?s') = tape"
    using len valid cm t a(2) valid' by (simp_all add: accept_simps)
  ultimately show ?thesis
    by blast
qed

lemma sa_loop_returns:
  assumes N: "2 \<le> N" and fair: "\<forall>pos v. v < N \<longrightarrow> (\<exists>q\<ge>pos. tape q mod N = v)"
  shows "length (current_perm s) = N \<Longrightarrow>
         list_all (\<lambda>k. norm_index N k \<noteq> None) (current_perm s) \<Longrightarrow>
         current_cm s = map (\<lambda>a. map (f a) (current_perm s)) (current_perm s) \<Longrightarrow>
         0 < temp s \<Longrightarrow> fst (gen s) = tape \<Longrightarrow>
         \<exists>s'. sa_loop calculate_score deterministic (int N) (calculate_weight_matrix (int N)) k s =
                Some (Inr s')"
proof (induction k arbitrary: s)
  case 0
  then show ?case by simp
next
  case (Suc k)
  from sa_step_returns [OF N fair Suc.prems, of deterministic] obtain s1 where
    s1: "sa_step calculate_score deterministic (int N) (calculate_weight_matrix (int N)) s =
           Some (Inr s1)"
        "length (current_perm s1) = N"
        "list_all (\<lambda>k. norm_index N k \<noteq> None) (current_perm s1)"
        "current_cm s1 = map (\<lambda>a. map (f a) (current_perm s1)) (current_perm s1)"
        "0 < temp s1" "fst (gen s1) = tape"
    by blast
  from Suc.IH [OF s1(2-6)] s1(1) show ?case
    by simp
qed

text \<open>
  With at least two classes, a permutation of full length (or none) and a tape on which
  every value below the number of classes keeps turning up, the run executes all its
  iterations and \<^verbatim>\<open>simulated_annealing\<close> returns the best matrix and permutation.
\<close>

lemma simulated_annealing_returns:
  assumes sq: "is_square N cm_arg" and N: "2 \<le> N"
    and fair: "\<forall>pos v. v < N \<longrightarrow> (\<exists>q\<ge>pos. tape q mod N = v)"
    and t: "0 < temp_arg" and cf: "0 < cooling_factor" "cooling_factor < 1"
    and perm: "case perm_arg of None \<Rightarrow> True
               | Some p \<Rightarrow> length p = N \<and> list_all (\<lambda>k. norm_index N k \<noteq> None) p"
  shows "\<exists>s. sa_run cm_arg perm_arg calculate_score steps temp_arg cooling_factor deterministic
               (tape, pos) = Some (Inr s) \<and>
             simulated_annealing cm_arg perm_arg calculate_score steps temp_arg cooling_factor
               deterministic (tape, pos) = Some (Inr (best_cm s, best_perm s))"
proof -
  let ?f = "\<lambda>a b. cm_arg ! the (norm_index N a) ! the (norm_index N b)"
  let ?p = "case perm_arg of None \<Rightarrow> [0..int N - 1] | Some p \<Rightarrow> p"
  have len: "length cm_arg = N"
    using sq by (simp add: is_square_def)
  have plen: "length ?p = N"
    using perm by (simp add: upto_int_length split: option.splits)
  have pvalid: "list_all (\<lambda>k. norm_index N k \<noteq> None) ?p"
  proof (cases perm_arg)
    case None
    then show ?thesis
      by (auto simp: list_all_iff norm_index_def)
  next
    case (Some p)
    with perm show ?thesis
      by simp
  qed
  have ap: "apply_permutation cm_arg ?p = Inr (map (\<lambda>a. map (?f a) ?p) ?p)"
    using pvalid by (simp add: apply_permutation_square [OF sq])
  from calculate_score_square [OF plen, of ?f] obtain sc where
    sc: "calculate_score (map (\<lambda>a. map (?f a) ?p) ?p) (calculate_weight_matrix (int N)) = Inr sc"
    by blast
  let ?s0 = "\<lparr>current_cm = map (\<lambda>a. map (?f a) ?p) ?p, current_perm = ?p, current_score = sc,
               best_cm = map (\<lambda>a. map (?f a) ?p) ?p, best_perm = ?p, best_score = sc,
               temp = temp_arg, gen = (tape, pos)\<rparr>"
  have init: "sa_init cm_arg perm_arg calculate_score temp_arg (tape, pos) = Inr ?s0"
    by (simp add: sa_init_def len ap sc Let_def)
  have "\<exists>s'. sa_loop calculate_score deterministic (int N) (calculate_weight_matrix (int N))
      (nat steps) ?s0 = Some (Inr s')"
    using plen pvalid t by (intro sa_loop_returns [OF N fair, of ?s0 ?f]) simp_all
  then obtain s where
    "sa_loop calculate_score deterministic (int N) (calculate_weight_matrix (int N))
      (nat steps) ?s0 = Some (Inr s)"
    by blast
  then have run: "sa_run cm_arg perm_arg calculate_score steps temp_arg cooling_factor
      deterministic (tape, pos) = Some (Inr s)"
    using t cf by (simp add: sa_run_def init len)
  then show ?thesis
    by (simp add: simulated_annealing_def)
qed

text \<open>The tape whose \<open>k\<close>-th cell holds \<open>k\<close> is such a tape.\<close>

lemma counting_tape_fair:
  "0 < (N::nat) \<Longrightarrow> \<forall>pos v. v < N \<longrightarrow> (\<exists>q\<ge>pos. (\<lambda>k. k) q mod N = v)"
proof (intro allI impI)
  fix pos v :: nat
  assume "0 < N" "v < N"
  then have "pos \<le> pos * N + v" "(pos * N + v) mod N = v"
    by (simp_all add: trans_le_add1)
  then show "\<exists>q\<ge>pos. q mod N = v"
    by blast
qed

lemma example_run_returns:
  "\<exists>s :: sa_state.
     simulated_annealing example_cm None calculate_score steps 100 (99 / 100) deterministic
       (\<lambda>k. k, 0) = Some (Inr (best_cm s, best_perm s))"
proof -
  have sq: "is_square 3 example_cm"
    by (simp add: is_square_def)
  have fair: "\<forall>pos v. v < (3::nat) \<longrightarrow> (\<exists>q\<ge>pos. (\<lambda>k. k) q mod 3 = v)"
    by (rule counting_tape_fair) simp
  have "\<exists>s. sa_run example_cm None calculate_score steps 100 (99 / 100) deterministic
           (\<lambda>k. k, 0) = Some (Inr s) \<and>
         simulated_annealing example_cm None calculate_score steps 100 (99 / 100) deterministic
           (\<lambda>k. k, 0) = Some (Inr (best_cm s, best_perm s))"
    by (rule simulated_annealing_returns [OF sq _ fair]) simp_all
  then show ?thesis
    by blast
qed

end
